theory Spec2Isabelle
  imports Main "HOL-Library.Word"
begin

section \<open>JavaScript values handled by the adapter\<close>

text \<open>
  The adapter in \<^verbatim>\<open>langchain-adapter.ts\<close> receives values of type \<^verbatim>\<open>any\<close>. The values it
  only reads (message chunks, their \<^verbatim>\<open>lc_kwargs\<close>, function-call descriptors) are modelled as
  trees. An object is the list of its own enumerable string-keyed properties in enumeration
  order (keys distinct). Numbers are the integers; strings are sequences of code units below
  256, which is what a \<^typ>\<open>char\<close> holds.
\<close>

datatype jsval =
    JUndefined
  | JNull
  | JBool bool
  | JNum int
  | JStr string
  | JArr "jsval list"
  | JObj "(string \<times> jsval) list"

text \<open>What a \<^verbatim>\<open>throw\<close> or a rejected promise carries.\<close>

datatype exn =
    TypeError
  | Error string
  | Thrown jsval

text \<open>The condition of \<^verbatim>\<open>functionCall ? ... : ...\<close>: JavaScript's ToBoolean.\<close>

fun truthy :: "jsval \<Rightarrow> bool" where
  "truthy JUndefined = False"
| "truthy JNull = False"
| "truthy (JBool b) = b"
| "truthy (JNum n) = (n \<noteq> 0)"
| "truthy (JStr s) = (s \<noteq> [])"
| "truthy (JArr xs) = True"
| "truthy (JObj kvs) = True"

text \<open>
  Property access \<^verbatim>\<open>v.k\<close> throws a TypeError on \<^verbatim>\<open>undefined\<close> and \<^verbatim>\<open>null\<close>; the optional
  chain \<^verbatim>\<open>v?.k\<close> yields \<^verbatim>\<open>undefined\<close> there. The keys the adapter reads (\<^verbatim>\<open>lc_kwargs\<close>,
  \<^verbatim>\<open>additional_kwargs\<close>, \<^verbatim>\<open>function_call\<close>, \<^verbatim>\<open>content\<close>) are not properties of the built-in
  prototypes, so a primitive or an array answers \<^verbatim>\<open>undefined\<close>.
\<close>

definition own_prop :: "jsval \<Rightarrow> string \<Rightarrow> jsval" where
  "own_prop v k =
     (case v of
        JObj kvs \<Rightarrow> (case map_of kvs k of None \<Rightarrow> JUndefined | Some x \<Rightarrow> x)
      | _ \<Rightarrow> JUndefined)"

definition nullish :: "jsval \<Rightarrow> bool" where
  "nullish v = (v = JUndefined \<or> v = JNull)"

definition get_prop :: "jsval \<Rightarrow> string \<Rightarrow> exn + jsval" where
  "get_prop v k = (if nullish v then Inl TypeError else Inr (own_prop v k))"

definition opt_prop :: "jsval \<Rightarrow> string \<Rightarrow> jsval" where
  "opt_prop v k = (if nullish v then JUndefined else own_prop v k)"

section \<open>The wire format: \<^verbatim>\<open>JSON.stringify\<close> and \<^verbatim>\<open>TextEncoder\<close>\<close>

definition dq :: char where
  "dq = CHR 0x22"

definition bsl :: char where
  "bsl = CHR 0x5C"

definition nl :: char where
  "nl = CHR 0x0A"

definition hex_digit :: "nat \<Rightarrow> char" where
  "hex_digit n = ''0123456789abcdef'' ! (n mod 16)"

text \<open>QuoteJSONString of ECMAScript, on code units below 256.\<close>

definition escape_char :: "char \<Rightarrow> string" where
  "escape_char c =
     (if c = dq then [bsl, dq]
      else if c = bsl then [bsl, bsl]
      else if c = CHR 0x08 then [bsl, CHR ''b'']
      else if c = CHR 0x09 then [bsl, CHR ''t'']
      else if c = CHR 0x0A then [bsl, CHR ''n'']
      else if c = CHR 0x0C then [bsl, CHR ''f'']
      else if c = CHR 0x0D then [bsl, CHR ''r'']
      else if (of_char c :: nat) < 32
        then [bsl, CHR ''u'', CHR ''0'', CHR ''0'',
              hex_digit (of_char c div 16), hex_digit (of_char c)]
      else [c])"

definition quote :: "string \<Rightarrow> string" where
  "quote s = dq # concat (map escape_char s) @ [dq]"

function dec :: "nat \<Rightarrow> string" where
  "dec n = (if n < 10 then [hex_digit n] else dec (n div 10) @ [hex_digit (n mod 10)])"
  by pat_completeness auto
termination
  by (relation "measure id") auto

definition show_int :: "int \<Rightarrow> string" where
  "show_int i = (if i < 0 then CHR ''-'' # dec (nat (- i)) else dec (nat i))"

fun commas :: "string list \<Rightarrow> string" where
  "commas [] = []"
| "commas [x] = x"
| "commas (x # y # ys) = x @ CHR '','' # commas (y # ys)"

text \<open>
  SerializeJSONProperty: \<^verbatim>\<open>undefined\<close> has no JSON text (\<open>None\<close>); an array writes it as
  \<^verbatim>\<open>null\<close>, an object leaves the property out.
\<close>

definition array_element :: "string option \<Rightarrow> string" where
  "array_element t = (case t of None \<Rightarrow> ''null'' | Some x \<Rightarrow> x)"

definition object_member :: "string \<times> string option \<Rightarrow> string list" where
  "object_member kt = (case snd kt of None \<Rightarrow> [] | Some x \<Rightarrow> [quote (fst kt) @ CHR '':'' # x])"

primrec serialize :: "jsval \<Rightarrow> string option" where
  "serialize JUndefined = None"
| "serialize JNull = Some ''null''"
| "serialize (JBool b) = Some (if b then ''true'' else ''false'')"
| "serialize (JNum n) = Some (show_int n)"
| "serialize (JStr s) = Some (quote s)"
| "serialize (JArr xs) =
     Some (CHR ''['' # commas (map array_element (map serialize xs)) @ '']'')"
| "serialize (JObj kvs) =
     Some (CHR ''{'' # commas (concat (map object_member (map (map_prod id serialize) kvs))) @ ''}'')"

text \<open>
  \<^verbatim>\<open>"data: " + JSON.stringify(chunk)\<close>: string concatenation writes an \<^verbatim>\<open>undefined\<close> result
  as the text \<^verbatim>\<open>undefined\<close>.
\<close>

definition JSON_stringify :: "jsval \<Rightarrow> string" where
  "JSON_stringify v = (case serialize v of None \<Rightarrow> ''undefined'' | Some t \<Rightarrow> t)"

type_synonym bytes = "8 word list"

text \<open>\<^verbatim>\<open>new TextEncoder().encode(s)\<close>: UTF-8, one or two bytes for a code unit below 256.\<close>

definition utf8_char :: "char \<Rightarrow> bytes" where
  "utf8_char c =
     (if (of_char c :: nat) < 128 then [of_nat (of_char c)]
      else [of_nat (192 + of_char c div 64), of_nat (128 + of_char c mod 64)])"

definition TextEncoder_encode :: "string \<Rightarrow> bytes" where
  "TextEncoder_encode s = concat (map utf8_char s)"

text \<open>The \<^verbatim>\<open>ChatCompletionChunk\<close> literal built at lines 113-123 and again at 147-157.\<close>

definition chat_chunk :: "jsval \<Rightarrow> jsval \<Rightarrow> jsval" where
  "chat_chunk content functionCall =
     JObj [(''choices'',
       JArr [JObj [(''delta'',
         JObj ([(''role'', JStr ''assistant''), (''content'', content)]
               @ (if truthy functionCall then [(''function_call'', functionCall)] else [])))]])]"

definition content_payload :: "jsval \<Rightarrow> jsval \<Rightarrow> bytes" where
  "content_payload content functionCall =
     TextEncoder_encode (''data: '' @ JSON_stringify (chat_chunk content functionCall) @ [nl, nl])"

definition done_payload :: bytes where
  "done_payload = TextEncoder_encode (''data: [DONE]'' @ [nl, nl])"

section \<open>The host's streams, as far as the adapter drives them\<close>

text \<open>
  An awaited call settles with a value, rejects, or never settles. A \<^verbatim>\<open>try\<close> block catches
  only the second.
\<close>

datatype 'a outcome = Value 'a | Raise exn | Hang

text \<open>
  The \<^verbatim>\<open>ReadableStreamDefaultController\<close> of the output stream. The consumer is not part of
  the adapter: after an accepted \<^verbatim>\<open>close()\<close> the host keeps the stream readable until the
  consumer has drained the queue, which is the state \<open>closeRequested\<close> with \<open>Readable\<close>.
\<close>

datatype sink_state = Readable | Closed | Errored exn

record controller =
  cstate :: sink_state
  closeRequested :: bool

definition can_close_or_enqueue :: "controller \<Rightarrow> bool" where
  "can_close_or_enqueue c = (cstate c = Readable \<and> \<not> closeRequested c)"

text \<open>
  The upstream \<^verbatim>\<open>IterableReadableStream\<close>: the results its coming reads will deliver, in
  order. When the list is used up and the stream is still readable, a read stays pending
  forever. \<open>cancel_error\<close> is what the upstream's own cancel algorithm throws, if it does.
\<close>

datatype read_result = Chunk jsval | End | Fail exn

datatype upstream_state = UReadable | UClosed | UErrored exn

record LangChainMessageStream =
  pending :: "read_result list"
  ustate :: upstream_state
  locked :: bool
  cancel_error :: "exn option"

text \<open>The \<^verbatim>\<open>{ done, value }\<close> of a settled read.\<close>

datatype read_reply = Item jsval | Done

text \<open>
  What the adapter does to its two collaborators, in order: a settled or pending upstream
  read, a chunk accepted by the sink, an accepted \<^verbatim>\<open>close()\<close> (completion signalled
  downstream), an \<^verbatim>\<open>error(e)\<close> that took effect, a call of \<^verbatim>\<open>reader.cancel()\<close>.
\<close>

datatype event =
    EvRead "read_reply outcome"
  | EvEnqueue bytes
  | EvClose
  | EvError exn
  | EvCancel

record 'r sstate =
  ctl :: controller
  src :: 'r
  trace :: "event list"

type_synonym ('r, 'a) action = "'r sstate \<Rightarrow> 'a outcome \<times> 'r sstate"

definition ret :: "'a \<Rightarrow> ('r, 'a) action" where
  "ret x s = (Value x, s)"

definition throw :: "exn \<Rightarrow> ('r, 'a) action" where
  "throw e s = (Raise e, s)"

definition bnd :: "('r, 'a) action \<Rightarrow> ('a \<Rightarrow> ('r, 'b) action) \<Rightarrow> ('r, 'b) action" where
  "bnd m f s =
     (case m s of
        (Value x, s') \<Rightarrow> f x s'
      | (Raise e, s') \<Rightarrow> (Raise e, s')
      | (Hang, s') \<Rightarrow> (Hang, s'))"

definition try_catch :: "('r, 'a) action \<Rightarrow> (exn \<Rightarrow> ('r, 'a) action) \<Rightarrow> ('r, 'a) action" where
  "try_catch m h s =
     (case m s of
        (Raise e, s') \<Rightarrow> h e s'
      | r \<Rightarrow> r)"

definition lift :: "exn + 'a \<Rightarrow> ('r, 'a) action" where
  "lift r = (case r of Inl e \<Rightarrow> throw e | Inr x \<Rightarrow> ret x)"

definition emit :: "event \<Rightarrow> 'r sstate \<Rightarrow> 'r sstate" where
  "emit e s = s\<lparr>trace := trace s @ [e]\<rparr>"

definition controller_enqueue :: "bytes \<Rightarrow> ('r, unit) action" where
  "controller_enqueue p s =
     (if can_close_or_enqueue (ctl s) then (Value (), emit (EvEnqueue p) s)
      else (Raise TypeError, s))"

definition controller_close :: "('r, unit) action" where
  "controller_close s =
     (if can_close_or_enqueue (ctl s)
      then (Value (), emit EvClose (s\<lparr>ctl := (ctl s)\<lparr>closeRequested := True\<rparr>\<rparr>))
      else (Raise TypeError, s))"

definition controller_error :: "exn \<Rightarrow> ('r, unit) action" where
  "controller_error e s =
     (if cstate (ctl s) = Readable
      then (Value (), emit (EvError e) (s\<lparr>ctl := (ctl s)\<lparr>cstate := Errored e\<rparr>\<rparr>))
      else (Value (), s))"

definition getReader :: "LangChainMessageStream \<Rightarrow> exn + LangChainMessageStream" where
  "getReader up = (if locked up then Inl TypeError else Inr (up\<lparr>locked := True\<rparr>))"

definition reader_read :: "(LangChainMessageStream, read_reply) action" where
  "reader_read s =
     (let r = src s in
      case ustate r of
        UClosed \<Rightarrow> (Value Done, emit (EvRead (Value Done)) s)
      | UErrored e \<Rightarrow> (Raise e, emit (EvRead (Raise e)) s)
      | UReadable \<Rightarrow>
          (case pending r of
             [] \<Rightarrow> (Hang, emit (EvRead Hang) s)
           | Chunk v # rest \<Rightarrow>
               (Value (Item v), emit (EvRead (Value (Item v))) (s\<lparr>src := r\<lparr>pending := rest\<rparr>\<rparr>))
           | End # rest \<Rightarrow>
               (Value Done,
                emit (EvRead (Value Done)) (s\<lparr>src := r\<lparr>pending := rest, ustate := UClosed\<rparr>\<rparr>))
           | Fail e # rest \<Rightarrow>
               (Raise e,
                emit (EvRead (Raise e)) (s\<lparr>src := r\<lparr>pending := rest, ustate := UErrored e\<rparr>\<rparr>))))"

definition reader_cancel :: "(LangChainMessageStream, unit) action" where
  "reader_cancel s =
     (let r = src s in
      case ustate r of
        UClosed \<Rightarrow> (Value (), emit EvCancel s)
      | UErrored e \<Rightarrow> (Raise e, emit EvCancel s)
      | UReadable \<Rightarrow>
          (case cancel_error r of None \<Rightarrow> Value () | Some e \<Rightarrow> Raise e,
           emit EvCancel (s\<lparr>src := r\<lparr>ustate := UClosed\<rparr>\<rparr>)))"

section \<open>\<^verbatim>\<open>LangChainAdapter.streamResult\<close>\<close>

text \<open>
  \<^verbatim>\<open>cleanup(controller?)\<close>, lines 85-96. The argument says whether a controller was passed;
  \<^verbatim>\<open>reader\<close> is an object, so \<^verbatim>\<open>if (reader)\<close> always holds. Both \<^verbatim>\<open>catch (_) {}\<close> blocks are
  empty.
\<close>

definition cleanup :: "bool \<Rightarrow> (LangChainMessageStream, unit) action" where
  "cleanup has_controller =
     bnd (if has_controller then try_catch controller_close (\<lambda>_. ret ()) else ret ())
       (\<lambda>_. try_catch reader_cancel (\<lambda>_. ret ()))"

text \<open>
  One turn of the \<^verbatim>\<open>while (true)\<close> of \<^verbatim>\<open>pull\<close>, lines 101-130: the \<^verbatim>\<open>try\<close> block, then the
  \<^verbatim>\<open>catch\<close> block. The result says whether the loop goes round again (\<open>False\<close> is a
  \<^verbatim>\<open>return\<close>).
\<close>

definition pull_try :: "(LangChainMessageStream, bool) action" where
  "pull_try =
     bnd reader_read (\<lambda>r.
       case r of
         Done \<Rightarrow>
           bnd (controller_enqueue done_payload) (\<lambda>_.
           bnd (cleanup True) (\<lambda>_. ret False))
       | Item v \<Rightarrow>
           bnd (lift (get_prop v ''lc_kwargs'')) (\<lambda>kw.
             let functionCall = opt_prop (opt_prop kw ''additional_kwargs'') ''function_call'';
                 content = opt_prop (opt_prop v ''lc_kwargs'') ''content''
             in bnd (controller_enqueue (content_payload content functionCall)) (\<lambda>_. ret True)))"

definition pull_catch :: "exn \<Rightarrow> (LangChainMessageStream, bool) action" where
  "pull_catch error =
     bnd (controller_error error) (\<lambda>_.
     bnd (cleanup True) (\<lambda>_. ret False))"

definition pull_body :: "(LangChainMessageStream, bool) action" where
  "pull_body = try_catch pull_try pull_catch"

function pull :: "(LangChainMessageStream, unit) action" where
  "pull s =
     (case pull_body s of
        (Value again, s') \<Rightarrow> if again then pull s' else (Value (), s')
      | (Raise e, s') \<Rightarrow> (Raise e, s')
      | (Hang, s') \<Rightarrow> (Hang, s'))"
  by pat_completeness auto
termination
  by (relation "measure (\<lambda>s. length (pending (src s)))")
    (auto simp: pull_body_def pull_try_def pull_catch_def try_catch_def bnd_def ret_def
      throw_def lift_def reader_read_def controller_enqueue_def controller_error_def
      cleanup_def controller_close_def reader_cancel_def emit_def Let_def
      split: if_splits upstream_state.splits list.splits read_result.splits sum.splits
        option.splits read_reply.splits outcome.splits prod.splits)

text \<open>\<^verbatim>\<open>cancel() { cleanup(); }\<close>, lines 133-135: the promise of \<^verbatim>\<open>cleanup\<close> is dropped.\<close>

definition cancel :: "(LangChainMessageStream, unit) action" where
  "cancel s = (Value (), snd (cleanup False s))"

text \<open>
  The stream object \<^verbatim>\<open>streamResult\<close> returns, line 98, before any pull: \<^verbatim>\<open>getReader()\<close>
  throws on a locked upstream.
\<close>

definition fresh_controller :: controller where
  "fresh_controller = \<lparr>cstate = Readable, closeRequested = False\<rparr>"

definition streamResult ::
  "LangChainMessageStream \<Rightarrow> exn + LangChainMessageStream sstate" where
  "streamResult streamedChain =
     (case getReader streamedChain of
        Inl e \<Rightarrow> Inl e
      | Inr reader \<Rightarrow> Inr \<lparr>ctl = fresh_controller, src = reader, trace = []\<rparr>)"

section \<open>\<^verbatim>\<open>SingleChunkReadableStream\<close>\<close>

text \<open>
  The \<^verbatim>\<open>start(controller)\<close> callback, lines 146-165. The host runs it inside the constructor.
  The class defines no \<^verbatim>\<open>pull\<close>, and its \<^verbatim>\<open>cancel() {}\<close> is empty.
\<close>

definition start :: "jsval \<Rightarrow> jsval \<Rightarrow> (unit, unit) action" where
  "start content functionCall =
     bnd (controller_enqueue (content_payload content functionCall)) (\<lambda>_.
     bnd (controller_enqueue done_payload) (\<lambda>_.
     controller_close))"

text \<open>The default parameter \<^verbatim>\<open>content: string = ""\<close> replaces \<^verbatim>\<open>undefined\<close> only.\<close>

definition SingleChunkReadableStream :: "jsval \<Rightarrow> jsval \<Rightarrow> exn + unit sstate" where
  "SingleChunkReadableStream content_arg functionCall =
     (let content = (if content_arg = JUndefined then JStr [] else content_arg) in
      case start content functionCall \<lparr>ctl = fresh_controller, src = (), trace = []\<rparr> of
        (Raise e, s) \<Rightarrow> Inl e
      | (_, s) \<Rightarrow> Inr s)"

definition single_cancel :: "(unit, unit) action" where
  "single_cancel s = (Value (), s)"

section \<open>The output stream and the host's calls into it\<close>

datatype ReadableStream =
    Proxy "LangChainMessageStream sstate"
  | Single "unit sstate"

fun controller_of :: "ReadableStream \<Rightarrow> controller" where
  "controller_of (Proxy s) = ctl s"
| "controller_of (Single s) = ctl s"

fun trace_of :: "ReadableStream \<Rightarrow> event list" where
  "trace_of (Proxy s) = trace s"
| "trace_of (Single s) = trace s"

fun event_frame :: "event \<Rightarrow> bytes list" where
  "event_frame (EvEnqueue p) = [p]"
| "event_frame _ = []"

text \<open>The frames handed to the sink, in order.\<close>

definition frames :: "event list \<Rightarrow> bytes list" where
  "frames tr = concat (map event_frame tr)"

text \<open>
  The host calls the source's \<^verbatim>\<open>pull\<close> only while the stream can take chunks (it also waits
  for demand, which this adapter never looks at), and never while an earlier call is
  unsettled. A source without \<^verbatim>\<open>pull\<close> is not called.
\<close>

fun host_pull :: "ReadableStream \<Rightarrow> unit outcome \<times> ReadableStream" where
  "host_pull (Proxy s) =
     (if can_close_or_enqueue (ctl s) then (case pull s of (r, s') \<Rightarrow> (r, Proxy s'))
      else (Value (), Proxy s))"
| "host_pull (Single s) = (Value (), Single s)"

text \<open>
  \<^verbatim>\<open>stream.cancel()\<close>, ReadableStreamCancel: a closed stream resolves, an errored one rejects
  with the stored error; otherwise the host closes the stream and calls the source's
  \<^verbatim>\<open>cancel\<close>.
\<close>

definition host_close :: "'r sstate \<Rightarrow> 'r sstate" where
  "host_close s = s\<lparr>ctl := (ctl s)\<lparr>cstate := Closed\<rparr>\<rparr>"

fun host_cancel :: "ReadableStream \<Rightarrow> unit outcome \<times> ReadableStream" where
  "host_cancel (Proxy s) =
     (case cstate (ctl s) of
        Closed \<Rightarrow> (Value (), Proxy s)
      | Errored e \<Rightarrow> (Raise e, Proxy s)
      | Readable \<Rightarrow> (case cancel (host_close s) of (r, s') \<Rightarrow> (r, Proxy s')))"
| "host_cancel (Single s) =
     (case cstate (ctl s) of
        Closed \<Rightarrow> (Value (), Single s)
      | Errored e \<Rightarrow> (Raise e, Single s)
      | Readable \<Rightarrow> (case single_cancel (host_close s) of (r, s') \<Rightarrow> (r, Single s')))"

section \<open>The request: a store of mutable objects\<close>

text \<open>
  \<^verbatim>\<open>transformProps\<close> copies the caller's request object and writes to the copy, so the
  request lives in a store: objects and arrays are cells, a value is a primitive or the
  address of a cell. An address is an index into the store; allocation appends a cell.
  An array cell holds its elements and the other properties set on it. The cell
  \<open>HumanMessage c\<close> is a LangChain message of that class with content \<open>c\<close>, and likewise
  for the other two classes.
\<close>

type_synonym addr = nat

datatype hval =
    HUndefined
  | HNull
  | HBool bool
  | HNum int
  | HStr string
  | HRef addr

datatype hobj =
    Obj "(string \<times> hval) list"
  | Arr "hval list" "(string \<times> hval) list"
  | HumanMessage hval
  | AIMessage hval
  | SystemMessage hval

type_synonym heap = "hobj list"

definition heap_get :: "heap \<Rightarrow> addr \<Rightarrow> hobj option" where
  "heap_get h a = (if a < length h then Some (h ! a) else None)"

definition alloc :: "heap \<Rightarrow> hobj \<Rightarrow> heap \<times> addr" where
  "alloc h x = (h @ [x], length h)"

definition lookup :: "(string \<times> hval) list \<Rightarrow> string \<Rightarrow> hval" where
  "lookup kvs k = (case map_of kvs k of None \<Rightarrow> HUndefined | Some v \<Rightarrow> v)"

definition message_content :: "hobj \<Rightarrow> hval option" where
  "message_content x =
     (case x of
        HumanMessage c \<Rightarrow> Some c
      | AIMessage c \<Rightarrow> Some c
      | SystemMessage c \<Rightarrow> Some c
      | _ \<Rightarrow> None)"

text \<open>
  \<^verbatim>\<open>v.k\<close> for the keys read here (\<^verbatim>\<open>messages\<close>, \<^verbatim>\<open>role\<close>, \<^verbatim>\<open>content\<close>, \<^verbatim>\<open>additional_kwargs\<close>,
  \<^verbatim>\<open>response_metadata\<close>; none is an index or \<^verbatim>\<open>length\<close>): a TypeError on \<^verbatim>\<open>undefined\<close> and
  \<^verbatim>\<open>null\<close>, the property of a plain object or of an array, the content of a message,
  \<^verbatim>\<open>undefined\<close> otherwise.
\<close>

definition field :: "heap \<Rightarrow> hval \<Rightarrow> string \<Rightarrow> exn + hval" where
  "field h v k =
     (case v of
        HUndefined \<Rightarrow> Inl TypeError
      | HNull \<Rightarrow> Inl TypeError
      | HRef a \<Rightarrow>
          (case heap_get h a of
             None \<Rightarrow> Inr HUndefined
           | Some (Obj kvs) \<Rightarrow> Inr (lookup kvs k)
           | Some (Arr xs ps) \<Rightarrow> Inr (lookup ps k)
           | Some x \<Rightarrow>
               Inr (case message_content x of
                      None \<Rightarrow> HUndefined
                    | Some c \<Rightarrow> if k = ''content'' then c else HUndefined))
      | _ \<Rightarrow> Inr HUndefined)"

fun hval_truthy :: "hval \<Rightarrow> bool" where
  "hval_truthy HUndefined = False"
| "hval_truthy HNull = False"
| "hval_truthy (HBool b) = b"
| "hval_truthy (HNum n) = (n \<noteq> 0)"
| "hval_truthy (HStr s) = (s \<noteq> [])"
| "hval_truthy (HRef a) = True"

definition array_elements :: "heap \<Rightarrow> hval \<Rightarrow> hval list option" where
  "array_elements h v =
     (case v of
        HRef a \<Rightarrow> (case heap_get h a of Some (Arr xs ps) \<Rightarrow> Some xs | _ \<Rightarrow> None)
      | _ \<Rightarrow> None)"

text \<open>
  The own enumerable properties \<^verbatim>\<open>Object.assign\<close> copies from its source: those of a plain
  object, the index properties of an array or a string and then an array's other
  properties, none of the other primitives. A request is never a LangChain message; such
  a cell counts as having none.
\<close>

definition own_props :: "heap \<Rightarrow> hval \<Rightarrow> (string \<times> hval) list" where
  "own_props h v =
     (case v of
        HRef a \<Rightarrow>
          (case heap_get h a of
             Some (Obj kvs) \<Rightarrow> kvs
           | Some (Arr xs ps) \<Rightarrow> zip (map dec [0..<length xs]) xs @ ps
           | _ \<Rightarrow> [])
      | HStr s \<Rightarrow> zip (map dec [0..<length s]) (map (\<lambda>c. HStr [c]) s)
      | _ \<Rightarrow> [])"

fun set_prop :: "(string \<times> hval) list \<Rightarrow> string \<Rightarrow> hval \<Rightarrow> (string \<times> hval) list" where
  "set_prop [] k v = [(k, v)]"
| "set_prop (p # ps) k v = (if fst p = k then (k, v) # ps else p # set_prop ps k v)"

text \<open>The assignment \<^verbatim>\<open>o.k = v\<close> on the object or array at an address.\<close>

definition set_field :: "heap \<Rightarrow> addr \<Rightarrow> string \<Rightarrow> hval \<Rightarrow> heap" where
  "set_field h a k v =
     (case heap_get h a of
        Some (Obj kvs) \<Rightarrow> h[a := Obj (set_prop kvs k v)]
      | Some (Arr xs ps) \<Rightarrow> h[a := Arr xs (set_prop ps k v)]
      | _ \<Rightarrow> h)"

definition array_push :: "heap \<Rightarrow> addr \<Rightarrow> hval \<Rightarrow> heap" where
  "array_push h a v =
     (case heap_get h a of Some (Arr xs ps) \<Rightarrow> h[a := Arr (xs @ [v]) ps] | _ \<Rightarrow> h)"

section \<open>The message constructors of LangChain\<close>

text \<open>
  \<^verbatim>\<open>new HumanMessage(fields)\<close>, \<^verbatim>\<open>new AIMessage(fields)\<close> and \<^verbatim>\<open>new SystemMessage(fields)\<close>
  come from \<^verbatim>\<open>@langchain/core/messages\<close>, which is not part of the adapter. Their shared
  constructor takes a string as the content. Anything else it takes as the fields object:
  it runs \<^verbatim>\<open>if (!fields.additional_kwargs) fields.additional_kwargs = {}\<close>, the same for
  \<^verbatim>\<open>response_metadata\<close>, and keeps \<^verbatim>\<open>fields.content\<close>. So it throws a TypeError on
  \<^verbatim>\<open>undefined\<close> and \<^verbatim>\<open>null\<close> (the property read) and on a number or a boolean (the
  assignment, in strict code), and it writes into an object or array it is given. A
  message given as the fields has both properties already.
\<close>

definition ensure_object :: "heap \<Rightarrow> addr \<Rightarrow> string \<Rightarrow> heap" where
  "ensure_object h b k =
     (case field h (HRef b) k of
        Inl e \<Rightarrow> h
      | Inr v \<Rightarrow>
          if hval_truthy v then h
          else (case alloc h (Obj []) of (h', e) \<Rightarrow> set_field h' b k (HRef e)))"

definition new_message :: "(hval \<Rightarrow> hobj) \<Rightarrow> heap \<Rightarrow> hval \<Rightarrow> (exn + addr) \<times> heap" where
  "new_message cls h given =
     (case given of
        HStr s \<Rightarrow> (case alloc h (cls (HStr s)) of (h', a) \<Rightarrow> (Inr a, h'))
      | HRef b \<Rightarrow>
          (case heap_get h b of
             None \<Rightarrow> (Inl TypeError, h)
           | Some x \<Rightarrow>
               (case message_content x of
                  Some c \<Rightarrow> (case alloc h (cls c) of (h', a) \<Rightarrow> (Inr a, h'))
                | None \<Rightarrow>
                    (let h1 = ensure_object h b ''additional_kwargs'';
                         h2 = ensure_object h1 b ''response_metadata''
                     in case field h2 (HRef b) ''content'' of
                          Inl e \<Rightarrow> (Inl e, h2)
                        | Inr c \<Rightarrow> (case alloc h2 (cls c) of (h', a) \<Rightarrow> (Inr a, h')))))
      | _ \<Rightarrow> (Inl TypeError, h))"

section \<open>\<^verbatim>\<open>LangChainAdapter.transformProps\<close>\<close>

text \<open>
  The \<^verbatim>\<open>for (const message of forwardedProps.messages)\<close> loop, lines 61-69, over the
  elements of the caller's array; \<open>newMessages\<close> is the address of the array it pushes to.
  The result is the exception that ended the loop, if one did, and the store it leaves.
\<close>

fun push_messages :: "heap \<Rightarrow> addr \<Rightarrow> hval list \<Rightarrow> exn option \<times> heap" where
  "push_messages h newMessages [] = (None, h)"
| "push_messages h newMessages (message # rest) =
     (case field h message ''role'' of
        Inl e \<Rightarrow> (Some e, h)
      | Inr role \<Rightarrow>
          if role = HStr ''user'' then
            (case field h message ''content'' of
               Inl e \<Rightarrow> (Some e, h)
             | Inr c \<Rightarrow>
                 (case new_message HumanMessage h c of
                    (Inl e, h') \<Rightarrow> (Some e, h')
                  | (Inr a, h') \<Rightarrow>
                      push_messages (array_push h' newMessages (HRef a)) newMessages rest))
          else if role = HStr ''assistant'' then
            (case field h message ''content'' of
               Inl e \<Rightarrow> (Some e, h)
             | Inr c \<Rightarrow>
                 (case new_message AIMessage h c of
                    (Inl e, h') \<Rightarrow> (Some e, h')
                  | (Inr a, h') \<Rightarrow>
                      push_messages (array_push h' newMessages (HRef a)) newMessages rest))
          else if role = HStr ''system'' then
            (case field h message ''content'' of
               Inl e \<Rightarrow> (Some e, h)
             | Inr c \<Rightarrow>
                 (case new_message SystemMessage h c of
                    (Inl e, h') \<Rightarrow> (Some e, h')
                  | (Inr a, h') \<Rightarrow>
                      push_messages (array_push h' newMessages (HRef a)) newMessages rest))
          else push_messages h newMessages rest)"

text \<open>
  The body of \<^verbatim>\<open>transformProps\<close>, lines 55-74: what it returns or throws, and the store it
  leaves in either case.
\<close>

definition run_transformProps :: "heap \<Rightarrow> hval \<Rightarrow> (exn + hval) \<times> heap" where
  "run_transformProps h forwardedProps =
     (case alloc h (Obj (own_props h forwardedProps)) of
        (h1, forwardedPropsCopy) \<Rightarrow>
          (case field h1 forwardedProps ''messages'' of
             Inl e \<Rightarrow> (Inl e, h1)
           | Inr messages \<Rightarrow>
               (case (if hval_truthy messages then array_elements h1 messages else None) of
                  None \<Rightarrow> (Inr (HRef forwardedPropsCopy), h1)
                | Some elements \<Rightarrow>
                    (case alloc h1 (Arr [] []) of
                       (h2, newMessages) \<Rightarrow>
                         (case push_messages h2 newMessages elements of
                            (Some e, h3) \<Rightarrow> (Inl e, h3)
                          | (None, h3) \<Rightarrow>
                              (Inr (HRef forwardedPropsCopy),
                               set_field h3 forwardedPropsCopy ''messages'' (HRef newMessages)))))))"

text \<open>The call as \<^verbatim>\<open>stream\<close> sees it: the exception, or the store and the transformed request.\<close>

definition transformProps :: "heap \<Rightarrow> hval \<Rightarrow> exn + heap \<times> hval" where
  "transformProps h forwardedProps =
     (case run_transformProps h forwardedProps of
        (Inl e, h') \<Rightarrow> Inl e
      | (Inr forwardedProps', h') \<Rightarrow> Inr (h', forwardedProps'))"

section \<open>\<^verbatim>\<open>LangChainAdapter.stream\<close>\<close>

text \<open>
  What \<^verbatim>\<open>chainFn\<close> resolves with: the three shapes of \<^verbatim>\<open>LangChainReturnType\<close>, told apart by
  \<^verbatim>\<open>instanceof\<close> and \<^verbatim>\<open>typeof\<close>, and anything else. A \<^verbatim>\<open>BaseMessageChunk\<close> is given by its
  properties.
\<close>

datatype LangChainReturnType =
    MessageStream LangChainMessageStream
  | MessageChunk "(string \<times> jsval) list"
  | PlainString string
  | Unsupported jsval

definition of_sum :: "exn + 'a \<Rightarrow> ('a \<Rightarrow> 'b) \<Rightarrow> 'b outcome" where
  "of_sum r f = (case r of Inl e \<Rightarrow> Raise e | Inr x \<Rightarrow> Value (f x))"

definition stream ::
  "(heap \<Rightarrow> hval \<Rightarrow> LangChainReturnType outcome) \<Rightarrow> heap \<Rightarrow> hval \<Rightarrow> ReadableStream outcome" where
  "stream chainFn h forwardedProps =
     (case transformProps h forwardedProps of
        Inl e \<Rightarrow> Raise e
      | Inr (h', forwardedProps') \<Rightarrow>
          (case chainFn h' forwardedProps' of
             Raise e \<Rightarrow> Raise e
           | Hang \<Rightarrow> Hang
           | Value result \<Rightarrow>
               (case result of
                  MessageStream streamedChain \<Rightarrow> of_sum (streamResult streamedChain) Proxy
                | MessageChunk kvs \<Rightarrow>
                    of_sum
                      (SingleChunkReadableStream
                         (opt_prop (own_prop (JObj kvs) ''lc_kwargs'') ''content'')
                         (opt_prop (own_prop (JObj kvs) ''lc_kwargs'') ''function_call''))
                      Single
                | PlainString s \<Rightarrow> of_sum (SingleChunkReadableStream (JStr s) JUndefined) Single
                | Unsupported v \<Rightarrow> Raise (Error ''Invalid return type from LangChain function.''))))"

section \<open>Notions the properties are stated with\<close>

text \<open>The frame \<^verbatim>\<open>pull\<close> builds from a fragment \<open>v\<close> that is not \<^verbatim>\<open>undefined\<close> or \<^verbatim>\<open>null\<close>.\<close>

definition fragment_payload :: "jsval \<Rightarrow> bytes" where
  "fragment_payload v =
     content_payload (opt_prop (opt_prop v ''lc_kwargs'') ''content'')
       (opt_prop (opt_prop (own_prop v ''lc_kwargs'') ''additional_kwargs'') ''function_call'')"

text \<open>A fragment \<^verbatim>\<open>{content: c}\<close> as LangChain delivers it, under \<^verbatim>\<open>lc_kwargs\<close>.\<close>

definition fragment :: "string \<Rightarrow> jsval" where
  "fragment c = JObj [(''lc_kwargs'', JObj [(''content'', JStr c)])]"

text \<open>The events of reading the fragments \<open>vs\<close> one after the other.\<close>

definition relay :: "jsval list \<Rightarrow> event list" where
  "relay vs = concat (map (\<lambda>v. [EvRead (Value (Item v)), EvEnqueue (fragment_payload v)]) vs)"

text \<open>
  The upstream delivers end-of-sequence: every read before it gives a fragment that is an
  object, none fails and none stays pending.
\<close>

fun ends_normally :: "read_result list \<Rightarrow> bool" where
  "ends_normally [] = False"
| "ends_normally (End # rest) = True"
| "ends_normally (Fail e # rest) = False"
| "ends_normally (Chunk v # rest) = (\<not> nullish v \<and> ends_normally rest)"

definition reaches_end :: "LangChainMessageStream \<Rightarrow> bool" where
  "reaches_end up =
     (case ustate up of
        UClosed \<Rightarrow> True
      | UErrored e \<Rightarrow> False
      | UReadable \<Rightarrow> ends_normally (pending up))"

fun delivers_end :: "ReadableStream \<Rightarrow> bool" where
  "delivers_end (Proxy s) = reaches_end (src s)"
| "delivers_end (Single s) = True"


text \<open>
  The wire format in the words of the specification: the record
  \<^verbatim>\<open>data: {"choices":[{"delta":{...}}]}\<close> and two newlines, the members of \<^verbatim>\<open>delta\<close> being
  \<^verbatim>\<open>role\<close>, then \<^verbatim>\<open>content\<close>, then \<^verbatim>\<open>function_call\<close>.
\<close>

definition record_of :: "string \<Rightarrow> bytes" where
  "record_of members =
     TextEncoder_encode
       (''data: {'' @ quote ''choices'' @ '':[{'' @ quote ''delta'' @ '':{'' @ members
        @ ''}}]}'' @ [nl, nl])"

definition role_member :: string where
  "role_member = quote ''role'' @ '':'' @ quote ''assistant''"

definition content_member :: "jsval \<Rightarrow> string" where
  "content_member c = '','' @ quote ''content'' @ '':'' @ JSON_stringify c"

definition function_call_member :: "jsval \<Rightarrow> string" where
  "function_call_member f =
     (if truthy f then '','' @ quote ''function_call'' @ '':'' @ JSON_stringify f else [])"

text \<open>
  The request transformation in the words of the specification: a turn with role
  \<^verbatim>\<open>user\<close>, \<^verbatim>\<open>assistant\<close> or \<^verbatim>\<open>system\<close> becomes the message of that type with the turn's
  content, any other turn is dropped, and the order is kept.
\<close>

definition turn_message :: "heap \<Rightarrow> hval \<Rightarrow> hobj option" where
  "turn_message h turn =
     (case field h turn ''role'' of
        Inl e \<Rightarrow> None
      | Inr role \<Rightarrow>
          (case field h turn ''content'' of
             Inl e \<Rightarrow> None
           | Inr c \<Rightarrow>
               if role = HStr ''user'' then Some (HumanMessage c)
               else if role = HStr ''assistant'' then Some (AIMessage c)
               else if role = HStr ''system'' then Some (SystemMessage c)
               else None))"

definition transformed_turns :: "heap \<Rightarrow> hval list \<Rightarrow> hobj list" where
  "transformed_turns h turns =
     concat (map (\<lambda>t. case turn_message h t of None \<Rightarrow> [] | Some m \<Rightarrow> [m]) turns)"

text \<open>
  A turn as the specification types it: where it is an object it is one of the store, and
  where its role is one of the three its content is a string. A turn the loop accepts is
  moreover not \<^verbatim>\<open>undefined\<close> or \<^verbatim>\<open>null\<close>.
\<close>

definition text_content :: "heap \<Rightarrow> hval \<Rightarrow> bool" where
  "text_content h t = (case field h t ''content'' of Inr (HStr s) \<Rightarrow> True | _ \<Rightarrow> False)"

definition typed_turn :: "heap \<Rightarrow> hval \<Rightarrow> bool" where
  "typed_turn h t =
     (case t of
        HRef b \<Rightarrow> b < length h \<and> (case turn_message h t of None \<Rightarrow> True | Some m \<Rightarrow> text_content h t)
      | _ \<Rightarrow> True)"

definition turn_ok :: "heap \<Rightarrow> hval \<Rightarrow> bool" where
  "turn_ok h t = (t \<noteq> HUndefined \<and> t \<noteq> HNull \<and> typed_turn h t)"

text \<open>The turns of a request: the elements of its \<^verbatim>\<open>messages\<close>, when that is an array.\<close>

definition turns_of :: "heap \<Rightarrow> hval \<Rightarrow> hval list" where
  "turns_of h forwardedProps =
     (case field h forwardedProps ''messages'' of
        Inl e \<Rightarrow> []
      | Inr messages \<Rightarrow>
          if hval_truthy messages
          then (case array_elements h messages of None \<Rightarrow> [] | Some ts \<Rightarrow> ts)
          else [])"

text \<open>The objects an array value holds, read through the store.\<close>

definition deref :: "heap \<Rightarrow> hval \<Rightarrow> hobj option" where
  "deref h r = (case r of HRef a \<Rightarrow> heap_get h a | _ \<Rightarrow> None)"

definition messages_at :: "heap \<Rightarrow> hval \<Rightarrow> hobj option list" where
  "messages_at h v = (case array_elements h v of None \<Rightarrow> [] | Some rs \<Rightarrow> map (deref h) rs)"

text \<open>
  What the consumer observes. The host keeps the chunks the adapter enqueued in a queue
  until the consumer asks for them. A \<^verbatim>\<open>read()\<close> of the consumer takes the head of the queue;
  on an empty queue it waits, and the next chunk enqueued goes to it. \<^verbatim>\<open>error(e)\<close> empties
  the queue and rejects the reads that wait; an accepted \<^verbatim>\<open>close()\<close> ends the stream once
  the queue is empty. The adapter never looks at the queue, so the consumer's view is
  computed from the adapter's trace.
\<close>

datatype observation = Got bytes | Failed exn | Finished

record downstream =
  queued :: "bytes list"
  waiting :: nat
  dstate :: sink_state
  closing :: bool
  seen :: "observation list"

definition fresh_downstream :: downstream where
  "fresh_downstream = \<lparr>queued = [], waiting = 0, dstate = Readable, closing = False, seen = []\<rparr>"

definition consumer_read :: "downstream \<Rightarrow> downstream" where
  "consumer_read d =
     (case dstate d of
        Errored e \<Rightarrow> d\<lparr>seen := seen d @ [Failed e]\<rparr>
      | Closed \<Rightarrow> d\<lparr>seen := seen d @ [Finished]\<rparr>
      | Readable \<Rightarrow>
          (case queued d of
             [] \<Rightarrow> d\<lparr>waiting := Suc (waiting d)\<rparr>
           | p # q \<Rightarrow>
               d\<lparr>queued := q, seen := seen d @ [Got p],
                 dstate := (if closing d \<and> q = [] then Closed else Readable)\<rparr>))"

fun deliver :: "event \<Rightarrow> downstream \<Rightarrow> downstream" where
  "deliver (EvEnqueue p) d =
     (if 0 < waiting d then d\<lparr>waiting := waiting d - 1, seen := seen d @ [Got p]\<rparr>
      else d\<lparr>queued := queued d @ [p]\<rparr>)"
| "deliver EvClose d =
     (if queued d = []
      then d\<lparr>closing := True, dstate := Closed, waiting := 0,
             seen := seen d @ replicate (waiting d) Finished\<rparr>
      else d\<lparr>closing := True\<rparr>)"
| "deliver (EvError e) d =
     d\<lparr>queued := [], dstate := Errored e, waiting := 0,
       seen := seen d @ replicate (waiting d) (Failed e)\<rparr>"
| "deliver (EvRead r) d = d"
| "deliver EvCancel d = d"

text \<open>
  The trace replayed against a consumer. While the adapter awaits an upstream read the
  consumer runs: the schedule gives the number of reads it issues at each such await, none
  once the schedule is used up.
\<close>

fun replay :: "nat list \<Rightarrow> event list \<Rightarrow> downstream \<Rightarrow> downstream" where
  "replay sched [] d = d"
| "replay sched (EvRead r # tr) d =
     (case sched of
        [] \<Rightarrow> replay [] tr d
      | k # rest \<Rightarrow> replay rest tr ((consumer_read ^^ k) d))"
| "replay sched (ev # tr) d = replay sched tr (deliver ev d)"

text \<open>What a consumer with that schedule has observed after \<open>n\<close> more reads at the end.\<close>

definition observes :: "nat list \<Rightarrow> nat \<Rightarrow> event list \<Rightarrow> observation list" where
  "observes sched n tr = seen ((consumer_read ^^ n) (replay sched tr fresh_downstream))"

text \<open>
  While the stream is open and no close was asked for: of the frames \<open>fs\<close> enqueued so
  far the consumer has been given the first ones, in order, and the others are queued; a
  read waits only on an empty queue.
\<close>

definition serving :: "bytes list \<Rightarrow> downstream \<Rightarrow> bool" where
  "serving fs d =
     (dstate d = Readable \<and> \<not> closing d
      \<and> seen d @ map Got (queued d) = map Got fs
      \<and> (waiting d = 0 \<or> queued d = []))"

text \<open>The number of upstream reads in a trace.\<close>

fun reads_in :: "event list \<Rightarrow> nat" where
  "reads_in [] = 0"
| "reads_in (EvRead r # tr) = Suc (reads_in tr)"
| "reads_in (ev # tr) = reads_in tr"

text \<open>Concrete collaborators for the examples: an upstream function that resolves with a
  given result, a fresh unlocked upstream with given reads, and the stream
  \<^verbatim>\<open>streamResult\<close> opens over it.\<close>

definition always :: "LangChainReturnType \<Rightarrow> heap \<Rightarrow> hval \<Rightarrow> LangChainReturnType outcome" where
  "always r h p = Value r"

definition upstream_of :: "read_result list \<Rightarrow> LangChainMessageStream" where
  "upstream_of rs = \<lparr>pending = rs, ustate = UReadable, locked = False, cancel_error = None\<rparr>"

definition opened :: "read_result list \<Rightarrow> LangChainMessageStream sstate" where
  "opened rs = \<lparr>ctl = fresh_controller, src = (upstream_of rs)\<lparr>locked := True\<rparr>, trace = []\<rparr>"

definition reads_a_b :: "read_result list" where
  "reads_a_b = [Chunk (fragment ''a''), Chunk (fragment ''b''), End]"

definition reads_a_fail :: "read_result list" where
  "reads_a_fail = [Chunk (fragment ''a''), Fail (Error ''boom'')]"

text \<open>The stream \<^verbatim>\<open>new SingleChunkReadableStream("hello")\<close> is, once its constructor returns.\<close>

definition hello_stream :: "unit sstate" where
  "hello_stream =
     \<lparr>ctl = \<lparr>cstate = Readable, closeRequested = True\<rparr>, src = (),
      trace = [EvEnqueue (content_payload (JStr ''hello'') JUndefined),
               EvEnqueue done_payload, EvClose]\<rparr>"

text \<open>A stream whose sink is closed already and whose upstream refuses to be cancelled.\<close>

definition stubborn :: "LangChainMessageStream sstate" where
  "stubborn =
     \<lparr>ctl = \<lparr>cstate = Closed, closeRequested = False\<rparr>,
      src = \<lparr>pending = [], ustate = UReadable, locked = True,
             cancel_error = Some (Error ''busy'')\<rparr>,
      trace = []\<rparr>"

text \<open>
  A request in the store: the request object at address 0 with a \<^verbatim>\<open>messages\<close> array at 1
  and one more field; turns with roles \<^verbatim>\<open>user\<close>, \<^verbatim>\<open>tool\<close> and \<^verbatim>\<open>system\<close> at 2, 3 and 4. And
  the store after \<^verbatim>\<open>transformProps\<close> ran on it.
\<close>

definition request_heap :: heap where
  "request_heap =
     [Obj [(''messages'', HRef 1), (''temperature'', HNum 1)],
      Arr [HRef 2, HRef 3, HRef 4] [],
      Obj [(''role'', HStr ''user''), (''content'', HStr ''hi'')],
      Obj [(''role'', HStr ''tool''), (''content'', HStr ''42'')],
      Obj [(''role'', HStr ''system''), (''content'', HStr ''be brief'')]]"

definition transformed_heap :: heap where
  "transformed_heap =
     request_heap @
     [Obj [(''messages'', HRef 6), (''temperature'', HNum 1)],
      Arr [HRef 7, HRef 8] [],
      HumanMessage (HStr ''hi''),
      SystemMessage (HStr ''be brief'')]"

text \<open>A request whose only turn is \<^verbatim>\<open>null\<close>: the loop throws on reading its role.\<close>

definition null_turn_heap :: heap where
  "null_turn_heap = [Obj [(''messages'', HRef 1)], Arr [HNull] []]"

text \<open>
  A request whose \<^verbatim>\<open>user\<close> turn has an object as its content, which the specification's
  type of a turn excludes: the request at 0, its turns at 1, the turn at 2, the content
  at 3.
\<close>

definition object_content_heap :: heap where
  "object_content_heap =
     [Obj [(''messages'', HRef 1)], Arr [HRef 2] [],
      Obj [(''role'', HStr ''user''), (''content'', HRef 3)], Obj [(''text'', HStr ''hi'')]]"

text \<open>A message without content: its \<^verbatim>\<open>lc_kwargs\<close> has no \<^verbatim>\<open>content\<close> property.\<close>

definition bare_kwargs :: "(string \<times> jsval) list" where
  "bare_kwargs = [(''lc_kwargs'', JObj [])]"

section \<open>How one call of \<^verbatim>\<open>pull\<close> runs\<close>

lemmas action_defs = bnd_def ret_def throw_def try_catch_def lift_def emit_def
  controller_enqueue_def controller_close_def controller_error_def
  reader_read_def reader_cancel_def cleanup_def

declare pull.simps [simp del]

lemma pull_body_chunk:
  assumes "can_close_or_enqueue (ctl s)" "ustate (src s) = UReadable"
    "pending (src s) = Chunk v # rest" "\<not> nullish v"
  shows "pull_body s = (Value True, s\<lparr>src := (src s)\<lparr>pending := rest\<rparr>,
            trace := trace s @ [EvRead (Value (Item v)), EvEnqueue (fragment_payload v)]\<rparr>)"
  using assms
  by (simp add: pull_body_def pull_try_def pull_catch_def action_defs get_prop_def
      fragment_payload_def Let_def)

lemma pull_chunk:
  assumes "can_close_or_enqueue (ctl s)" "ustate (src s) = UReadable"
    "pending (src s) = Chunk v # rest" "\<not> nullish v"
  shows "pull s = pull (s\<lparr>src := (src s)\<lparr>pending := rest\<rparr>,
            trace := trace s @ [EvRead (Value (Item v)), EvEnqueue (fragment_payload v)]\<rparr>)"
  by (subst pull.simps) (simp add: pull_body_chunk [OF assms])

lemma pull_bad_chunk:
  assumes "can_close_or_enqueue (ctl s)" "ustate (src s) = UReadable"
    "pending (src s) = Chunk v # rest" "nullish v"
  shows "pull s = (Value (), s\<lparr>ctl := (ctl s)\<lparr>cstate := Errored TypeError\<rparr>,
            src := (src s)\<lparr>pending := rest, ustate := UClosed\<rparr>,
            trace := trace s @ [EvRead (Value (Item v)), EvError TypeError, EvCancel]\<rparr>)"
  using assms
  by (subst pull.simps)
    (simp add: pull_body_def pull_try_def pull_catch_def action_defs get_prop_def
      can_close_or_enqueue_def Let_def split: option.splits)

lemma pull_end:
  assumes "can_close_or_enqueue (ctl s)" "ustate (src s) = UReadable"
    "pending (src s) = End # rest"
  shows "pull s = (Value (), s\<lparr>ctl := (ctl s)\<lparr>closeRequested := True\<rparr>,
            src := (src s)\<lparr>pending := rest, ustate := UClosed\<rparr>,
            trace := trace s @ [EvRead (Value Done), EvEnqueue done_payload, EvClose, EvCancel]\<rparr>)"
  using assms
  by (subst pull.simps)
    (simp add: pull_body_def pull_try_def pull_catch_def action_defs
      can_close_or_enqueue_def Let_def)

lemma pull_fail:
  assumes "can_close_or_enqueue (ctl s)" "ustate (src s) = UReadable"
    "pending (src s) = Fail e # rest"
  shows "pull s = (Value (), s\<lparr>ctl := (ctl s)\<lparr>cstate := Errored e\<rparr>,
            src := (src s)\<lparr>pending := rest, ustate := UErrored e\<rparr>,
            trace := trace s @ [EvRead (Raise e), EvError e, EvCancel]\<rparr>)"
  using assms
  by (subst pull.simps)
    (simp add: pull_body_def pull_try_def pull_catch_def action_defs
      can_close_or_enqueue_def Let_def)

lemma pull_hang:
  assumes "ustate (src s) = UReadable" "pending (src s) = []"
  shows "pull s = (Hang, s\<lparr>trace := trace s @ [EvRead Hang]\<rparr>)"
  using assms
  by (subst pull.simps)
    (simp add: pull_body_def pull_try_def pull_catch_def action_defs Let_def)

lemma pull_upstream_closed:
  assumes "can_close_or_enqueue (ctl s)" "ustate (src s) = UClosed"
  shows "pull s = (Value (), s\<lparr>ctl := (ctl s)\<lparr>closeRequested := True\<rparr>,
            trace := trace s @ [EvRead (Value Done), EvEnqueue done_payload, EvClose, EvCancel]\<rparr>)"
  using assms
  by (subst pull.simps)
    (simp add: pull_body_def pull_try_def pull_catch_def action_defs
      can_close_or_enqueue_def Let_def)

lemma pull_upstream_errored:
  assumes "can_close_or_enqueue (ctl s)" "ustate (src s) = UErrored e"
  shows "pull s = (Value (), s\<lparr>ctl := (ctl s)\<lparr>cstate := Errored e\<rparr>,
            trace := trace s @ [EvRead (Raise e), EvError e, EvCancel]\<rparr>)"
  using assms
  by (subst pull.simps)
    (simp add: pull_body_def pull_try_def pull_catch_def action_defs
      can_close_or_enqueue_def Let_def)

lemma pull_chunks:
  assumes "can_close_or_enqueue (ctl s)" "ustate (src s) = UReadable"
    "pending (src s) = map Chunk vs @ tail" "\<forall>v\<in>set vs. \<not> nullish v"
  shows "pull s = pull (s\<lparr>src := (src s)\<lparr>pending := tail\<rparr>, trace := trace s @ relay vs\<rparr>)"
  using assms
proof (induction vs arbitrary: s)
  case Nil
  then have "tail = pending (src s)" by simp
  then show ?case by (simp add: relay_def)
next
  case (Cons v vs)
  let ?s1 = "s\<lparr>src := (src s)\<lparr>pending := map Chunk vs @ tail\<rparr>,
     trace := trace s @ [EvRead (Value (Item v)), EvEnqueue (fragment_payload v)]\<rparr>"
  have step: "pull s = pull ?s1"
    using Cons.prems by (intro pull_chunk) simp_all
  have "pull ?s1 = pull (?s1\<lparr>src := (src ?s1)\<lparr>pending := tail\<rparr>, trace := trace ?s1 @ relay vs\<rparr>)"
    using Cons.prems by (intro Cons.IH) simp_all
  with step show ?case by (simp add: relay_def)
qed

lemma content_not_done: "content_payload c f \<noteq> done_payload"
  by (simp add: content_payload_def done_payload_def TextEncoder_encode_def utf8_char_def
      JSON_stringify_def chat_chunk_def)

lemma frames_append: "frames (xs @ ys) = frames xs @ frames ys"
  by (simp add: frames_def)

lemma frames_relay: "frames (relay vs) = map fragment_payload vs"
  by (induction vs) (simp_all add: frames_def relay_def)

lemma cleanup_value: "\<exists>s'. cleanup b s = (Value (), s') \<and> frames (trace s') = frames (trace s)
   \<and> ctl s' = (if b \<and> can_close_or_enqueue (ctl s) then (ctl s)\<lparr>closeRequested := True\<rparr> else ctl s)"
  by (simp add: action_defs frames_def Let_def split: upstream_state.splits option.splits)

lemma cleanup_again:
  assumes "\<not> can_close_or_enqueue (ctl s)" "ustate (src s) \<noteq> UReadable"
  shows "\<exists>s'. cleanup b s = (Value (), s') \<and> ctl s' = ctl s \<and> src s' = src s \<and> trace s' = trace s @ [EvCancel]"
  using assms
  by (simp add: action_defs Let_def split: upstream_state.splits option.splits)

lemma pull_body_no_raise: "fst (pull_body s) \<noteq> Raise e"
  by (simp add: pull_body_def pull_try_def pull_catch_def action_defs Let_def get_prop_def
      split: upstream_state.splits option.splits list.splits read_result.splits prod.splits outcome.splits read_reply.splits sum.splits)

lemma pull_no_raise: "fst (pull s) \<noteq> Raise e"
proof (induction s rule: pull.induct)
  case (1 s)
  show ?case
  proof (cases "pull_body s")
    case (Pair r s')
    with pull_body_no_raise [of s] 1 show ?thesis
      by (subst pull.simps) (auto split: outcome.splits)
  qed
qed

lemma pull_summary:
  assumes "can_close_or_enqueue (ctl s)"
  shows "\<exists>cs. (\<forall>p\<in>set cs. \<exists>c f. p = content_payload c f) \<and>
     frames (trace (snd (pull s))) =
       frames (trace s) @ cs @ (if reaches_end (src s) then [done_payload] else []) \<and>
     (fst (pull s) = Hang \<and> pending (src (snd (pull s))) = [] \<and> ustate (src (snd (pull s))) = UReadable
        \<and> ctl (snd (pull s)) = ctl s
      \<or> fst (pull s) = Value () \<and> \<not> can_close_or_enqueue (ctl (snd (pull s))))"
proof (cases "ustate (src s)")
  case UClosed
  then show ?thesis using assms
    by (simp add: pull_upstream_closed reaches_end_def frames_append frames_def can_close_or_enqueue_def)
next
  case (UErrored e)
  then show ?thesis using assms
    by (simp add: pull_upstream_errored reaches_end_def frames_append frames_def can_close_or_enqueue_def)
next
  case UReadable
  then show ?thesis using assms
  proof (induction xs \<equiv> "pending (src s)" arbitrary: s)
    case Nil
    then show ?case
      by (simp add: pull_hang [of s] reaches_end_def frames_append frames_def)
  next
    case (Cons x xs)
    have pend: "pending (src s) = x # xs"
      using Cons.hyps(2) by simp
    note prems = Cons.prems pend
    show ?case
    proof (cases x)
      case End
      with prems show ?thesis
        by (simp add: pull_end [of s xs] reaches_end_def frames_append frames_def
            can_close_or_enqueue_def)
    next
      case (Fail e)
      with prems show ?thesis
        by (simp add: pull_fail [of s e xs] reaches_end_def frames_append frames_def
            can_close_or_enqueue_def)
    next
      case (Chunk v)
      show ?thesis
      proof (cases "nullish v")
        case True
        with prems Chunk show ?thesis
          by (simp add: pull_bad_chunk [of s v xs] reaches_end_def frames_append frames_def
              can_close_or_enqueue_def)
      next
        case False
        let ?s1 = "s\<lparr>src := (src s)\<lparr>pending := xs\<rparr>,
          trace := trace s @ [EvRead (Value (Item v)), EvEnqueue (fragment_payload v)]\<rparr>"
        have step: "pull s = pull ?s1"
          using prems Chunk False by (intro pull_chunk) simp_all
        have "\<exists>cs. (\<forall>p\<in>set cs. \<exists>c f. p = content_payload c f) \<and>
           frames (trace (snd (pull ?s1))) =
             frames (trace ?s1) @ cs @ (if reaches_end (src ?s1) then [done_payload] else []) \<and>
           (fst (pull ?s1) = Hang \<and> pending (src (snd (pull ?s1))) = []
              \<and> ustate (src (snd (pull ?s1))) = UReadable \<and> ctl (snd (pull ?s1)) = ctl ?s1
            \<or> fst (pull ?s1) = Value () \<and> \<not> can_close_or_enqueue (ctl (snd (pull ?s1))))"
          using prems by (intro Cons.hyps(1)) simp_all
        then obtain cs where cs: "\<forall>p\<in>set cs. \<exists>c f. p = content_payload c f"
          "frames (trace (snd (pull ?s1))) =
             frames (trace ?s1) @ cs @ (if reaches_end (src ?s1) then [done_payload] else [])"
          "fst (pull ?s1) = Hang \<and> pending (src (snd (pull ?s1))) = []
              \<and> ustate (src (snd (pull ?s1))) = UReadable \<and> ctl (snd (pull ?s1)) = ctl ?s1
            \<or> fst (pull ?s1) = Value () \<and> \<not> can_close_or_enqueue (ctl (snd (pull ?s1)))"
          by blast
        have re: "reaches_end (src ?s1) = reaches_end (src s)"
          using prems Chunk False by (simp add: reaches_end_def)
        have fp: "\<exists>c f. fragment_payload v = content_payload c f"
          by (auto simp: fragment_payload_def)
        show ?thesis
          apply (rule exI [of _ "fragment_payload v # cs"])
          using cs fp re by (simp add: step frames_append frames_def)
      qed
    qed
  qed
qed

lemma streamResult_opened: "streamResult (upstream_of rs) = Inr (opened rs)"
  by (simp add: streamResult_def getReader_def upstream_of_def opened_def)

lemma opened_simps:
  "can_close_or_enqueue (ctl (opened rs))" "ustate (src (opened rs)) = UReadable"
  "pending (src (opened rs)) = rs" "trace (opened rs) = []"
  by (simp_all add: opened_def upstream_of_def fresh_controller_def can_close_or_enqueue_def)

lemma streamResult_fresh:
  assumes "streamResult up = Inr s0"
  shows "can_close_or_enqueue (ctl s0) \<and> trace s0 = [] \<and> pending (src s0) = pending up
    \<and> ustate (src s0) = ustate up \<and> cancel_error (src s0) = cancel_error up"
  using assms
  by (auto simp: streamResult_def getReader_def fresh_controller_def can_close_or_enqueue_def
      split: if_splits)

lemma no_cancel_in_relay: "filter (\<lambda>x. x = EvCancel) (relay vs) = []"
  by (induction vs) (simp_all add: relay_def)

lemma stream_over_upstream:
  assumes "transformProps h forwardedProps = Inr (h', forwardedProps')"
    and "chainFn h' forwardedProps' = Value (MessageStream up)"
    and "streamResult up = Inr s0"
  shows "stream chainFn h forwardedProps = Value (Proxy s0)"
  using assms by (simp add: stream_def of_sum_def)

lemma transformProps_empty: "transformProps [Obj []] (HRef 0) = Inr ([Obj [], Obj []], HRef 1)"
  by (simp add: transformProps_def run_transformProps_def alloc_def own_props_def heap_get_def
      field_def lookup_def)

lemma fragment_not_nullish: "\<not> nullish (fragment c)"
  by (simp add: fragment_def nullish_def)

lemma done_not_fragment: "done_payload \<noteq> fragment_payload v"
  using content_not_done [symmetric] by (simp add: fragment_payload_def)

lemma serialize_defined: "c \<noteq> JUndefined \<Longrightarrow> \<exists>t. serialize c = Some t"
  by (cases c) simp_all

lemma truthy_defined: "truthy f \<Longrightarrow> f \<noteq> JUndefined"
  by (cases f) simp_all

lemmas wire_defs = content_payload_def record_of_def role_member_def content_member_def
  function_call_member_def JSON_stringify_def chat_chunk_def object_member_def
  array_element_def

lemma content_payload_record:
  assumes "c \<noteq> JUndefined"
  shows "content_payload c f = record_of (role_member @ content_member c @ function_call_member f)"
proof -
  from serialize_defined [OF assms] obtain t where t: "serialize c = Some t" ..
  show ?thesis
  proof (cases "truthy f")
    case True
    from serialize_defined [OF truthy_defined [OF True]] obtain u where "serialize f = Some u" ..
    with True t show ?thesis by (simp add: wire_defs)
  next
    case False
    with t show ?thesis by (simp add: wire_defs)
  qed
qed

lemma content_payload_undefined:
  "content_payload JUndefined f = record_of (role_member @ function_call_member f)"
proof (cases "truthy f")
  case True
  from serialize_defined [OF truthy_defined [OF True]] obtain u where "serialize f = Some u" ..
  with True show ?thesis by (simp add: wire_defs)
next
  case False
  then show ?thesis by (simp add: wire_defs)
qed

lemma fragment_payload_fragment:
  "fragment_payload (fragment c) = record_of (role_member @ content_member (JStr c))"
  by (simp add: fragment_payload_def fragment_def opt_prop_def own_prop_def nullish_def
      content_payload_record function_call_member_def)

lemma single_chunk_built:
  "SingleChunkReadableStream content_arg f =
     Inr \<lparr>ctl = \<lparr>cstate = Readable, closeRequested = True\<rparr>, src = (),
          trace = [EvEnqueue (content_payload (if content_arg = JUndefined then JStr [] else content_arg) f),
                   EvEnqueue done_payload, EvClose]\<rparr>"
  by (simp add: SingleChunkReadableStream_def start_def action_defs fresh_controller_def
      can_close_or_enqueue_def Let_def)


lemma stream_cases:
  assumes "stream chainFn h forwardedProps = Value rs"
  shows "(\<exists>up s0. rs = Proxy s0 \<and> streamResult up = Inr s0)
     \<or> (\<exists>c f s. rs = Single s \<and> SingleChunkReadableStream c f = Inr s)"
  using assms
  by (auto simp: stream_def of_sum_def
      split: sum.splits outcome.splits LangChainReturnType.splits prod.splits)

lemma frames_after_cancel: "frames (trace (snd (cancel s))) = frames (trace s)"
  using cleanup_value [of False s] by (auto simp: cancel_def)

lemma frames_host_close: "frames (trace (host_close s)) = frames (trace s)"
  by (simp add: host_close_def)

lemma frames_after_host_cancel_proxy:
  "frames (trace_of (snd (host_cancel (Proxy s)))) = frames (trace s)"
  using frames_after_cancel [of "host_close s"]
  by (cases "cstate (ctl s)") (simp_all add: frames_host_close case_prod_beta)

lemma frames_after_host_cancel_single:
  "frames (trace_of (snd (host_cancel (Single s)))) = frames (trace s)"
  by (cases "cstate (ctl s)") (simp_all add: frames_host_close single_cancel_def)

lemma frames_after_second_pull:
  assumes "can_close_or_enqueue (ctl s)"
  shows "frames (trace_of (snd (host_pull (Proxy (snd (pull s)))))) = frames (trace (snd (pull s)))"
proof -
  from pull_summary [OF assms]
  consider "fst (pull s) = Hang" "pending (src (snd (pull s))) = []"
      "ustate (src (snd (pull s))) = UReadable"
    | "\<not> can_close_or_enqueue (ctl (snd (pull s)))"
    by blast
  then show ?thesis
  proof cases
    case 1
    then show ?thesis
      by (simp add: pull_hang [of "snd (pull s)"] frames_append) (simp add: frames_def)
  next
    case 2
    then show ?thesis by simp
  qed
qed

lemma single_chunk_frames:
  "\<exists>s. SingleChunkReadableStream content f = Inr s
     \<and> frames (trace s) =
         [record_of (role_member @ content_member (if content = JUndefined then JStr [] else content)
            @ function_call_member f), done_payload]"
  by (simp add: single_chunk_built frames_def content_payload_record)

lemma first_frame_of_pull:
  assumes "\<not> nullish v" "streamResult up = Inr s0" "pending up = Chunk v # rest"
    "ustate up = UReadable"
  shows "\<exists>t. frames (trace (snd (pull s0))) = fragment_payload v # t"
proof -
  from streamResult_fresh [OF assms(2)] assms(3,4)
  have s0: "can_close_or_enqueue (ctl s0)" "trace s0 = []"
    "pending (src s0) = Chunk v # rest" "ustate (src s0) = UReadable"
    by simp_all
  let ?s1 = "s0\<lparr>src := (src s0)\<lparr>pending := rest\<rparr>,
      trace := trace s0 @ [EvRead (Value (Item v)), EvEnqueue (fragment_payload v)]\<rparr>"
  have step: "pull s0 = pull ?s1"
    using s0 assms(1) by (intro pull_chunk) simp_all
  have "can_close_or_enqueue (ctl ?s1)" using s0 by simp
  from pull_summary [OF this] obtain cs where
    "frames (trace (snd (pull ?s1))) =
       frames (trace ?s1) @ cs @ (if reaches_end (src ?s1) then [done_payload] else [])"
    by blast
  then show ?thesis
    using s0(2) by (simp add: step frames_def)
qed

lemma pull_body_extends: "\<exists>t. trace (snd (pull_body s)) = trace s @ t"
  by (simp add: pull_body_def pull_try_def pull_catch_def action_defs Let_def get_prop_def
      split: upstream_state.splits option.splits list.splits read_result.splits)

lemma pull_extends: "\<exists>t. trace (snd (pull s)) = trace s @ t"
proof (induction s rule: pull.induct)
  case (1 s)
  from pull_body_extends [of s] obtain t where t: "trace (snd (pull_body s)) = trace s @ t" ..
  show ?case
  proof (cases "pull_body s")
    case (Pair r s')
    with t have s': "trace s' = trace s @ t" by simp
    show ?thesis
    proof (cases r)
      case (Value again)
      show ?thesis
      proof (cases again)
        case True
        from "1.IH" [OF Pair [symmetric] Value True] obtain u where "trace (snd (pull s')) = trace s' @ u" ..
        with Pair Value True s' show ?thesis
          by (subst pull.simps) simp
      next
        case False
        with Pair Value s' show ?thesis
          by (subst pull.simps) simp
      qed
    next
      case (Raise e)
      with Pair s' show ?thesis by (subst pull.simps) simp
    next
      case Hang
      with Pair s' show ?thesis by (subst pull.simps) simp
    qed
  qed
qed

lemma pull_body_starts_with_read: "\<exists>r t. trace (snd (pull_body s)) = trace s @ EvRead r # t"
  by (simp add: pull_body_def pull_try_def pull_catch_def action_defs Let_def get_prop_def
      split: upstream_state.splits option.splits list.splits read_result.splits)

lemma pull_starts_with_read: "\<exists>r t. trace (snd (pull s)) = trace s @ EvRead r # t"
proof -
  from pull_body_starts_with_read [of s] obtain r t where
    b: "trace (snd (pull_body s)) = trace s @ EvRead r # t" by blast
  obtain x s' where p: "pull_body s = (x, s')" by (cases "pull_body s")
  from pull_extends [of s'] obtain u where u: "trace (snd (pull s')) = trace s' @ u" ..
  from b p have s': "trace s' = trace s @ EvRead r # t" by simp
  show ?thesis
  proof (cases x)
    case (Value again)
    with p s' u show ?thesis
      by (subst pull.simps) (cases again; simp)
  next
    case (Raise e)
    with p s' show ?thesis by (subst pull.simps) simp
  next
    case Hang
    with p s' show ?thesis by (subst pull.simps) simp
  qed
qed

section \<open>The store under \<^verbatim>\<open>transformProps\<close>\<close>

lemma heap_get_nth: "a < length h \<Longrightarrow> heap_get h a = Some (h ! a)"
  by (simp add: heap_get_def)

lemma array_push_length: "length (array_push h n v) = length h"
  by (simp add: array_push_def split: option.splits hobj.splits)

lemma array_push_other: "a \<noteq> n \<Longrightarrow> array_push h n v ! a = h ! a"
  by (simp add: array_push_def split: option.splits hobj.splits)

lemma array_push_at:
  "n < length h \<Longrightarrow> h ! n = Arr rs ps \<Longrightarrow> array_push h n v ! n = Arr (rs @ [v]) ps"
  by (simp add: array_push_def heap_get_def)

lemma set_field_length: "length (set_field h c k v) = length h"
  by (simp add: set_field_def split: option.splits hobj.splits)

lemma set_field_other: "a \<noteq> c \<Longrightarrow> set_field h c k v ! a = h ! a"
  by (simp add: set_field_def split: option.splits hobj.splits)

lemma set_field_at:
  "c < length h \<Longrightarrow> h ! c = Obj kvs \<Longrightarrow> set_field h c k v ! c = Obj (set_prop kvs k v)"
  by (simp add: set_field_def heap_get_def)

lemma lookup_set_prop: "lookup (set_prop kvs k0 v) k = (if k = k0 then v else lookup kvs k)"
  by (induction kvs) (auto simp: lookup_def)

lemma new_message_text:
  "new_message cls h (HStr s) = (Inr (length h), h @ [cls (HStr s)])"
  by (simp add: new_message_def alloc_def)

lemma field_agree:
  assumes "length h \<le> length hc" "\<forall>a<length h. hc ! a = h ! a" "typed_turn h t"
  shows "field hc t k = field h t k"
  using assms by (cases t) (auto simp: field_def heap_get_def typed_turn_def)

lemma field_ref: "\<exists>v. field h (HRef b) k = Inr v"
  by (simp add: field_def split: option.splits hobj.splits)

lemma typed_turn_recognised:
  assumes "typed_turn h t" "field h t ''role'' = Inr role"
    "role = HStr ''user'' \<or> role = HStr ''assistant'' \<or> role = HStr ''system''"
  shows "\<exists>s. field h t ''content'' = Inr (HStr s)"
proof (cases t)
  case (HRef b)
  from field_ref [of h b "''content''"] obtain c where "field h (HRef b) ''content'' = Inr c" ..
  with HRef assms show ?thesis
    by (auto simp: typed_turn_def turn_message_def text_content_def split: hval.splits)
qed (use assms in \<open>auto simp: field_def\<close>)

lemma push_messages_frame:
  assumes "length h \<le> n" "length h \<le> length hc" "\<forall>a<length h. hc ! a = h ! a"
    "\<forall>t\<in>set turns. typed_turn h t" "push_messages hc n turns = (r, h')"
  shows "length hc \<le> length h' \<and> (\<forall>a<length hc. a \<noteq> n \<longrightarrow> h' ! a = hc ! a)"
  using assms
proof (induction turns arbitrary: hc)
  case Nil
  then show ?case by simp
next
  case (Cons t turns)
  from Cons.prems have typed: "typed_turn h t" and rest: "\<forall>t\<in>set turns. typed_turn h t"
    by simp_all
  note agree = field_agree [OF Cons.prems(2,3) typed]
  show ?case
  proof (cases "field h t ''role''")
    case (Inl e)
    with Cons.prems(5) agree show ?thesis by simp
  next
    case (Inr role)
    show ?thesis
    proof (cases "role = HStr ''user'' \<or> role = HStr ''assistant'' \<or> role = HStr ''system''")
      case False
      with Cons.prems(5) Inr agree have "push_messages hc n turns = (r, h')" by simp
      from Cons.IH [OF Cons.prems(1,2,3) rest this] show ?thesis .
    next
      case True
      from typed_turn_recognised [OF typed Inr True] obtain s where
        s: "field h t ''content'' = Inr (HStr s)" ..
      define cls where "cls = (if role = HStr ''user'' then HumanMessage
        else if role = HStr ''assistant'' then AIMessage else SystemMessage)"
      let ?h1 = "array_push (hc @ [cls (HStr s)]) n (HRef (length hc))"
      have run: "push_messages ?h1 n turns = (r, h')"
        using Cons.prems(5) Inr True s agree
        by (auto simp: new_message_text cls_def)
      have "length h \<le> length ?h1" using Cons.prems(2) by (simp add: array_push_length)
      moreover have "\<forall>a<length h. ?h1 ! a = h ! a"
        using Cons.prems(1,2,3) by (simp add: array_push_other nth_append)
      ultimately have "length ?h1 \<le> length h' \<and> (\<forall>a<length ?h1. a \<noteq> n \<longrightarrow> h' ! a = ?h1 ! a)"
        using Cons.IH [OF Cons.prems(1) _ _ rest run] by blast
      then show ?thesis
        by (auto simp: array_push_length array_push_other nth_append)
    qed
  qed
qed

lemma field_copy: "field (h @ [Obj (own_props h p)]) p k = field h p k"
  by (cases p) (auto simp: field_def heap_get_def own_props_def nth_append lookup_def)

lemma array_elements_copy: "array_elements (h @ [Obj kvs]) m = array_elements h m"
  by (cases m) (auto simp: array_elements_def heap_get_def nth_append)

lemma run_transformProps_frame:
  assumes "\<forall>t\<in>set (turns_of h forwardedProps). typed_turn h t"
  shows "\<exists>r h'. run_transformProps h forwardedProps = (r, h') \<and> length h < length h'
    \<and> (\<forall>a<length h. h' ! a = h ! a)
    \<and> (\<forall>v. r = Inr v \<longrightarrow> v = HRef (length h)
          \<and> (\<exists>ps. h' ! length h = Obj ps
                \<and> (\<forall>k. k \<noteq> ''messages'' \<longrightarrow> lookup ps k = lookup (own_props h forwardedProps) k)))"
proof -
  let ?props = "own_props h forwardedProps"
  let ?c = "length h"
  let ?h1 = "h @ [Obj ?props]"
  show ?thesis
  proof (cases "field h forwardedProps ''messages''")
    case (Inl e)
    then show ?thesis
      by (simp add: run_transformProps_def alloc_def field_copy nth_append)
  next
    case (Inr messages)
    consider (none) "\<not> hval_truthy messages \<or> array_elements h messages = None"
      | (some) elements where "hval_truthy messages" "array_elements h messages = Some elements"
      by (cases "array_elements h messages") auto
    then show ?thesis
    proof cases
      case none
      with Inr show ?thesis
        by (auto simp: run_transformProps_def alloc_def field_copy array_elements_copy nth_append)
    next
      case some
      with Inr have turns: "turns_of h forwardedProps = elements"
        by (simp add: turns_of_def)
      let ?n = "Suc (length h)"
      let ?h2 = "?h1 @ [Arr [] []]"
      obtain r h3 where h3: "push_messages ?h2 ?n elements = (r, h3)"
        by (cases "push_messages ?h2 ?n elements")
      have "length ?h2 \<le> length h3 \<and> (\<forall>a<length ?h2. a \<noteq> ?n \<longrightarrow> h3 ! a = ?h2 ! a)"
        using assms turns
        by (intro push_messages_frame [where h = h and r = r, OF _ _ _ _ h3])
          (simp_all add: nth_append)
      then have len: "length ?h2 \<le> length h3"
        and same: "\<forall>a<length ?h2. a \<noteq> ?n \<longrightarrow> h3 ! a = ?h2 ! a"
        by simp_all
      have c3: "h3 ! ?c = Obj ?props"
        using same by (simp add: nth_append)
      have old3: "\<forall>a<length h. h3 ! a = h ! a"
        using same by (simp add: nth_append)
      show ?thesis
      proof (cases r)
        case (Some e)
        with Inr some h3 len old3
        show ?thesis
          by (simp add: run_transformProps_def alloc_def field_copy array_elements_copy)
      next
        case None
        let ?h' = "set_field h3 ?c ''messages'' (HRef ?n)"
        have run: "run_transformProps h forwardedProps = (Inr (HRef ?c), ?h')"
          using Inr some h3 None
          by (simp add: run_transformProps_def alloc_def field_copy array_elements_copy)
        have "?h' ! ?c = Obj (set_prop ?props ''messages'' (HRef ?n))"
          using len c3 by (intro set_field_at) simp_all
        moreover have "\<forall>a<length h. ?h' ! a = h ! a"
          using old3 by (simp add: set_field_other)
        ultimately show ?thesis
          using run len by (simp add: set_field_length lookup_set_prop)
      qed
    qed
  qed
qed

lemma transformProps_request:
  "transformProps request_heap (HRef 0) = Inr (transformed_heap, HRef 5)"
  by (simp add: transformProps_def run_transformProps_def new_message_def request_heap_def
      transformed_heap_def alloc_def own_props_def heap_get_def field_def lookup_def
      array_elements_def array_push_def set_field_def)

lemma field_turn_ok: "turn_ok h t \<Longrightarrow> \<exists>v. field h t k = Inr v"
  by (cases t) (auto simp: field_def turn_ok_def split: option.splits hobj.splits)

lemma push_messages_spec:
  assumes "length h \<le> n" "n < length hc" "hc ! n = Arr rs ps"
    "\<forall>a<length h. hc ! a = h ! a" "\<forall>t\<in>set turns. turn_ok h t"
  shows "\<exists>h' rs'. push_messages hc n turns = (None, h') \<and> h' ! n = Arr (rs @ rs') ps
      \<and> length hc \<le> length h' \<and> (\<forall>a<length hc. a \<noteq> n \<longrightarrow> h' ! a = hc ! a)
      \<and> (\<forall>r\<in>set rs'. \<exists>b. r = HRef b \<and> length hc \<le> b)
      \<and> map (deref h') rs' = map Some (transformed_turns h turns)"
  using assms
proof (induction turns arbitrary: hc rs)
  case Nil
  then show ?case by (simp add: transformed_turns_def)
next
  case (Cons t turns)
  from Cons.prems have ok: "turn_ok h t" and oks: "\<forall>t\<in>set turns. turn_ok h t"
    by simp_all
  from ok have typed: "typed_turn h t" by (simp add: turn_ok_def)
  from Cons.prems have len: "length h \<le> length hc" by simp
  from field_turn_ok [OF ok] obtain role where role: "field h t ''role'' = Inr role" by blast
  note agree = field_agree [OF len Cons.prems(4) typed]
  have pushed: "\<exists>h' rs'. push_messages (array_push (hc @ [x]) n (HRef (length hc))) n turns = (None, h')
      \<and> h' ! n = Arr (rs @ rs') ps \<and> length hc \<le> length h'
      \<and> (\<forall>a<length hc. a \<noteq> n \<longrightarrow> h' ! a = hc ! a)
      \<and> (\<forall>r\<in>set rs'. \<exists>b. r = HRef b \<and> length hc \<le> b)
      \<and> map (deref h') rs' = Some x # map Some (transformed_turns h turns)" for x
  proof -
    let ?h1 = "array_push (hc @ [x]) n (HRef (length hc))"
    have n1: "n < length ?h1" using Cons.prems(2) by (simp add: array_push_length)
    have at: "?h1 ! n = Arr (rs @ [HRef (length hc)]) ps"
      using Cons.prems(2,3) by (intro array_push_at) (simp_all add: nth_append)
    have old: "\<forall>a<length h. ?h1 ! a = h ! a"
      using Cons.prems(1,2,4) by (simp add: array_push_other nth_append)
    from Cons.IH [OF Cons.prems(1) n1 at old oks]
    obtain h' rs' where h': "push_messages ?h1 n turns = (None, h')"
      "h' ! n = Arr ((rs @ [HRef (length hc)]) @ rs') ps" "length ?h1 \<le> length h'"
      "\<forall>a<length ?h1. a \<noteq> n \<longrightarrow> h' ! a = ?h1 ! a"
      "\<forall>r\<in>set rs'. \<exists>b. r = HRef b \<and> length ?h1 \<le> b"
      "map (deref h') rs' = map Some (transformed_turns h turns)"
      by blast
    have new: "h' ! length hc = x"
      using h'(4) Cons.prems(2) by (simp add: array_push_length array_push_other)
    have "deref h' (HRef (length hc)) = Some x"
      using h'(3) new by (simp add: deref_def heap_get_def array_push_length)
    moreover have "\<forall>a<length hc. a \<noteq> n \<longrightarrow> h' ! a = hc ! a"
      using h'(4) by (simp add: array_push_length array_push_other nth_append)
    moreover have "\<forall>r\<in>set (HRef (length hc) # rs'). \<exists>b. r = HRef b \<and> length hc \<le> b"
      using h'(5) by (auto simp: array_push_length)
    ultimately show ?thesis
      using h' by (intro exI [of _ h'] exI [of _ "HRef (length hc) # rs'"])
        (simp add: array_push_length)
  qed
  show ?case
  proof (cases "role = HStr ''user'' \<or> role = HStr ''assistant'' \<or> role = HStr ''system''")
    case False
    with Cons.IH [OF Cons.prems(1,2,3,4) oks] role agree show ?thesis
      by (simp add: transformed_turns_def turn_message_def split: sum.splits)
  next
    case True
    from typed_turn_recognised [OF typed role True] obtain s where
      s: "field h t ''content'' = Inr (HStr s)" ..
    from True consider (user) "role = HStr ''user''" | (assistant) "role = HStr ''assistant''"
      | (system) "role = HStr ''system''"
      by blast
    then show ?thesis
    proof cases
      case user
      with pushed [of "HumanMessage (HStr s)"] role s agree show ?thesis
        by (simp add: new_message_text transformed_turns_def turn_message_def)
    next
      case assistant
      with pushed [of "AIMessage (HStr s)"] role s agree show ?thesis
        by (simp add: new_message_text transformed_turns_def turn_message_def)
    next
      case system
      with pushed [of "SystemMessage (HStr s)"] role s agree show ?thesis
        by (simp add: new_message_text transformed_turns_def turn_message_def)
    qed
  qed
qed

lemma new_message_nullish:
  "new_message cls h HUndefined = (Inl TypeError, h)" "new_message cls h HNull = (Inl TypeError, h)"
  by (simp_all add: new_message_def)

text \<open>
  Outside the specification's type of a turn the constructor does write into the caller's
  store: an object given as the content gets the two properties.
\<close>

lemma object_content_written:
  "heap_get (snd (run_transformProps object_content_heap (HRef 0))) 3
     = Some (Obj [(''text'', HStr ''hi''), (''additional_kwargs'', HRef 6),
                  (''response_metadata'', HRef 7)])"
  by (simp add: object_content_heap_def run_transformProps_def new_message_def ensure_object_def
      message_content_def alloc_def own_props_def heap_get_def field_def lookup_def
      array_elements_def array_push_def set_field_def)

lemma null_turn_throws:
  "run_transformProps null_turn_heap (HRef 0)
     = (Inl TypeError, null_turn_heap @ [Obj [(''messages'', HRef 1)], Arr [] []])"
  by (simp add: null_turn_heap_def run_transformProps_def alloc_def own_props_def heap_get_def
      field_def lookup_def array_elements_def)

section \<open>What the consumer observes\<close>

lemma serving_fresh: "serving [] fresh_downstream"
  by (simp add: serving_def fresh_downstream_def)

lemma serving_read: "serving fs d \<Longrightarrow> serving fs (consumer_read d)"
  by (cases "queued d") (auto simp: serving_def consumer_read_def)

lemma serving_reads: "serving fs d \<Longrightarrow> serving fs ((consumer_read ^^ k) d)"
  by (induction k) (simp_all add: serving_read)

lemma serving_enqueue: "serving fs d \<Longrightarrow> serving (fs @ [p]) (deliver (EvEnqueue p) d)"
  by (auto simp: serving_def)

lemma serving_seen:
  assumes "serving fs d"
  shows "length (seen d) \<le> length fs \<and> seen d = map Got (take (length (seen d)) fs)"
proof -
  from assms have eq: "seen d @ map Got (queued d) = map Got fs"
    by (simp add: serving_def)
  then have "length (seen d @ map Got (queued d)) = length (map Got fs)"
    by (simp only:)
  then have le: "length (seen d) \<le> length fs"
    by simp
  have "take (length (seen d)) (seen d @ map Got (queued d)) = seen d"
    by simp
  then have "take (length (seen d)) (map Got fs) = seen d"
    by (simp only: eq)
  then have "seen d = map Got (take (length (seen d)) fs)"
    by (simp only: take_map)
  with le show ?thesis ..
qed

lemma serving_relay:
  "serving fs d \<Longrightarrow> serving (fs @ map fragment_payload vs) (replay sched (relay vs) d)"
proof (induction vs arbitrary: sched d fs)
  case Nil
  then show ?case by (simp add: relay_def)
next
  case (Cons v vs)
  have rl: "relay (v # vs) = EvRead (Value (Item v)) # EvEnqueue (fragment_payload v) # relay vs"
    by (simp add: relay_def)
  show ?case
  proof (cases sched)
    case Nil
    from serving_enqueue [OF Cons.prems, of "fragment_payload v"]
    have "serving ((fs @ [fragment_payload v]) @ map fragment_payload vs)
        (replay [] (relay vs) (deliver (EvEnqueue (fragment_payload v)) d))"
      by (rule Cons.IH)
    then show ?thesis
      unfolding rl Nil by simp
  next
    case (Cons k rest')
    from serving_enqueue [OF serving_reads [OF Cons.prems, of k], of "fragment_payload v"]
    have "serving ((fs @ [fragment_payload v]) @ map fragment_payload vs)
        (replay rest' (relay vs) (deliver (EvEnqueue (fragment_payload v)) ((consumer_read ^^ k) d)))"
      by (rule Cons.IH)
    then show ?thesis
      unfolding rl Cons by simp
  qed
qed

lemma reads_in_relay: "reads_in (relay vs) = length vs"
  by (induction vs) (simp_all add: relay_def)

lemma replay_append:
  "replay sched (xs @ ys) d = replay (drop (reads_in xs) sched) ys (replay sched xs d)"
proof (induction xs arbitrary: sched d)
  case Nil
  then show ?case by simp
next
  case (Cons ev xs)
  show ?case
  proof (cases ev)
    case (EvRead r)
    with Cons show ?thesis by (cases sched) simp_all
  qed (simp_all add: Cons)
qed

lemma consumer_reads_errored:
  "dstate d = Errored e \<Longrightarrow>
     dstate ((consumer_read ^^ n) d) = Errored e
     \<and> seen ((consumer_read ^^ n) d) = seen d @ replicate n (Failed e)"
  by (induction n) (simp_all add: consumer_read_def replicate_append_same)

lemma seen_consumer_read: "\<exists>rest. seen (consumer_read d) = seen d @ rest"
  by (simp add: consumer_read_def split: sink_state.splits list.splits)

lemma seen_consumer_reads: "\<exists>rest. seen ((consumer_read ^^ n) d) = seen d @ rest"
proof (induction n)
  case 0
  then show ?case by simp
next
  case (Suc n)
  then obtain r1 where "seen ((consumer_read ^^ n) d) = seen d @ r1" ..
  moreover from seen_consumer_read [of "(consumer_read ^^ n) d"]
  obtain r2 where "seen (consumer_read ((consumer_read ^^ n) d)) = seen ((consumer_read ^^ n) d) @ r2" ..
  ultimately show ?case by simp
qed

lemma seen_deliver: "\<exists>rest. seen (deliver ev d) = seen d @ rest"
  by (cases ev) simp_all

lemma seen_replay: "\<exists>rest. seen (replay sched tr d) = seen d @ rest"
proof (induction tr arbitrary: sched d)
  case Nil
  then show ?case by simp
next
  case (Cons ev tr)
  from seen_deliver [of ev d] obtain r1 where r1: "seen (deliver ev d) = seen d @ r1" ..
  from Cons [of sched "deliver ev d"] obtain r2 where
    r2: "seen (replay sched tr (deliver ev d)) = seen (deliver ev d) @ r2" ..
  show ?case
  proof (cases ev)
    case (EvRead r)
    show ?thesis
    proof (cases sched)
      case Nil
      with EvRead Cons.IH [of "[]" d] show ?thesis by simp
    next
      case (Cons k rest')
      from seen_consumer_reads [of k d] obtain r3 where
        "seen ((consumer_read ^^ k) d) = seen d @ r3" ..
      moreover from Cons.IH [of rest' "(consumer_read ^^ k) d"] obtain r4 where
        "seen (replay rest' tr ((consumer_read ^^ k) d)) = seen ((consumer_read ^^ k) d) @ r4" ..
      ultimately show ?thesis using EvRead Cons by simp
    qed
  qed (use r1 r2 in simp_all)
qed


lemma replay_failed_read:
  "\<exists>d. serving (map fragment_payload vs) d
     \<and> replay sched (relay vs @ [EvRead (Raise e), EvError e, EvCancel]) fresh_downstream
         = deliver (EvError e) d"
proof -
  let ?d1 = "replay sched (relay vs) fresh_downstream"
  let ?rest = "drop (length vs) sched"
  from serving_relay [OF serving_fresh, of vs sched]
  have d1: "serving (map fragment_payload vs) ?d1" by simp
  have split: "replay sched (relay vs @ [EvRead (Raise e), EvError e, EvCancel]) fresh_downstream
      = replay ?rest [EvRead (Raise e), EvError e, EvCancel] ?d1"
    by (simp only: replay_append reads_in_relay)
  show ?thesis
  proof (cases ?rest)
    case Nil
    then have "replay ?rest [EvRead (Raise e), EvError e, EvCancel] ?d1 = deliver (EvError e) ?d1"
      by simp
    with d1 split show ?thesis by metis
  next
    case (Cons k rest')
    then have "replay ?rest [EvRead (Raise e), EvError e, EvCancel] ?d1
        = deliver (EvError e) ((consumer_read ^^ k) ?d1)"
      by simp
    with serving_reads [OF d1, of k] split show ?thesis by metis
  qed
qed

lemma observes_failed_read:
  "\<exists>j m. j \<le> length vs \<and> n \<le> m
     \<and> observes sched n (relay vs @ [EvRead (Raise e), EvError e, EvCancel])
         = map Got (take j (map fragment_payload vs)) @ replicate m (Failed e)"
proof -
  from replay_failed_read [of vs sched e] obtain d where
    d: "serving (map fragment_payload vs) d"
    and r: "replay sched (relay vs @ [EvRead (Raise e), EvError e, EvCancel]) fresh_downstream
         = deliver (EvError e) d"
    by blast
  let ?j = "length (seen d)"
  from serving_seen [OF d] have j: "?j \<le> length vs"
    and sn: "seen d = map Got (take ?j (map fragment_payload vs))"
    by simp_all
  have "dstate (deliver (EvError e) d) = Errored e" by simp
  from consumer_reads_errored [OF this, of n]
  have "seen ((consumer_read ^^ n) (deliver (EvError e) d))
      = seen d @ replicate (waiting d + n) (Failed e)"
    by (simp add: replicate_add)
  then have "observes sched n (relay vs @ [EvRead (Raise e), EvError e, EvCancel])
      = seen d @ replicate (waiting d + n) (Failed e)"
    by (simp only: observes_def r)
  then have "observes sched n (relay vs @ [EvRead (Raise e), EvError e, EvCancel])
      = map Got (take ?j (map fragment_payload vs)) @ replicate (waiting d + n) (Failed e)"
    using sn by (simp only:)
  with j show ?thesis
    by (intro exI [of _ ?j] exI [of _ "waiting d + n"]) simp
qed

lemma eager_step:
  "dstate d = Readable \<Longrightarrow> queued d = [] \<Longrightarrow> waiting d = 0 \<Longrightarrow>
     deliver (EvEnqueue p) (consumer_read d) = d\<lparr>seen := seen d @ [Got p]\<rparr>"
  by (cases d) (simp add: consumer_read_def)

lemma eager_relay:
  "dstate d = Readable \<Longrightarrow> queued d = [] \<Longrightarrow> waiting d = 0 \<Longrightarrow>
     replay (replicate (length vs) 1 @ sched) (relay vs @ tr) d
       = replay sched tr (d\<lparr>seen := seen d @ map Got (map fragment_payload vs)\<rparr>)"
proof (induction vs arbitrary: d)
  case Nil
  then show ?case by (simp add: relay_def)
next
  case (Cons v vs)
  have rl: "relay (v # vs) = EvRead (Value (Item v)) # EvEnqueue (fragment_payload v) # relay vs"
    by (simp add: relay_def)
  let ?d1 = "d\<lparr>seen := seen d @ [Got (fragment_payload v)]\<rparr>"
  have "replay (replicate (length (v # vs)) 1 @ sched) (relay (v # vs) @ tr) d
      = replay (replicate (length vs) 1 @ sched) (relay vs @ tr)
          (deliver (EvEnqueue (fragment_payload v)) (consumer_read d))"
    unfolding rl by simp
  also have "\<dots> = replay (replicate (length vs) 1 @ sched) (relay vs @ tr) ?d1"
    using Cons.prems by (simp only: eager_step)
  also have "\<dots> = replay sched tr (?d1\<lparr>seen := seen ?d1 @ map Got (map fragment_payload vs)\<rparr>)"
    using Cons.prems by (intro Cons.IH) simp_all
  finally show ?case by simp
qed

lemma observes_eager:
  "observes (replicate (Suc (length vs)) 1) n (relay vs @ [EvRead (Raise e), EvError e, EvCancel])
     = map Got (map fragment_payload vs) @ replicate (Suc n) (Failed e)"
proof -
  let ?d1 = "fresh_downstream\<lparr>seen := seen fresh_downstream @ map Got (map fragment_payload vs)\<rparr>"
  have sch: "replicate (Suc (length vs)) (1::nat) = replicate (length vs) 1 @ [1]"
    by (simp add: replicate_append_same)
  have "replay (replicate (length vs) 1 @ [1]) (relay vs @ [EvRead (Raise e), EvError e, EvCancel])
      fresh_downstream = replay [1] [EvRead (Raise e), EvError e, EvCancel] ?d1"
    by (intro eager_relay) (simp_all add: fresh_downstream_def)
  also have "\<dots> = deliver (EvError e) (consumer_read ?d1)"
    by simp
  finally have r: "replay (replicate (Suc (length vs)) 1)
      (relay vs @ [EvRead (Raise e), EvError e, EvCancel]) fresh_downstream
      = deliver (EvError e) (consumer_read ?d1)"
    by (simp only: sch)
  have "dstate (deliver (EvError e) (consumer_read ?d1)) = Errored e" by simp
  from consumer_reads_errored [OF this, of n]
  have "seen ((consumer_read ^^ n) (deliver (EvError e) (consumer_read ?d1)))
      = seen (deliver (EvError e) (consumer_read ?d1)) @ replicate n (Failed e)"
    by simp
  also have "seen (deliver (EvError e) (consumer_read ?d1))
      = map Got (map fragment_payload vs) @ [Failed e]"
    by (simp add: consumer_read_def fresh_downstream_def)
  finally show ?thesis
    unfolding observes_def r by simp
qed

lemma observes_grows: "\<exists>rest. observes sched n tr = observes sched 0 (take i tr) @ rest"
proof -
  let ?d1 = "replay sched (take i tr) fresh_downstream"
  have "replay sched (take i tr @ drop i tr) fresh_downstream
      = replay (drop (reads_in (take i tr)) sched) (drop i tr) ?d1"
    by (rule replay_append)
  then have r: "replay sched tr fresh_downstream
      = replay (drop (reads_in (take i tr)) sched) (drop i tr) ?d1"
    by simp
  from seen_replay [of "drop (reads_in (take i tr)) sched" "drop i tr" ?d1] obtain r1 where
    r1: "seen (replay (drop (reads_in (take i tr)) sched) (drop i tr) ?d1) = seen ?d1 @ r1" ..
  from seen_consumer_reads [of n "replay sched tr fresh_downstream"] obtain r2 where
    "seen ((consumer_read ^^ n) (replay sched tr fresh_downstream))
      = seen (replay sched tr fresh_downstream) @ r2" ..
  with r r1 have "observes sched n tr = observes sched 0 (take i tr) @ (r1 @ r2)"
    by (simp add: observes_def)
  then show ?thesis ..
qed

lemma pull_reads_a_fail:
  "pull (opened reads_a_fail) =
     (Value (),
      \<lparr>ctl = \<lparr>cstate = Errored (Error ''boom''), closeRequested = False\<rparr>,
       src = \<lparr>pending = [], ustate = UErrored (Error ''boom''), locked = True,
              cancel_error = None\<rparr>,
       trace = [EvRead (Value (Item (fragment ''a''))),
                EvEnqueue (record_of (role_member @ content_member (JStr ''a''))),
                EvRead (Raise (Error ''boom'')), EvError (Error ''boom''), EvCancel]\<rparr>)"
proof -
  let ?s1 = "(opened reads_a_fail)\<lparr>src := (src (opened reads_a_fail))\<lparr>pending := [Fail (Error ''boom'')]\<rparr>,
      trace := trace (opened reads_a_fail) @ relay [fragment ''a'']\<rparr>"
  have "pull (opened reads_a_fail) = pull ?s1"
    by (intro pull_chunks) (simp_all add: opened_simps reads_a_fail_def fragment_not_nullish)
  also have "pull ?s1 = (Value (), ?s1\<lparr>ctl := (ctl ?s1)\<lparr>cstate := Errored (Error ''boom'')\<rparr>,
      src := (src ?s1)\<lparr>pending := [], ustate := UErrored (Error ''boom'')\<rparr>,
      trace := trace ?s1 @ [EvRead (Raise (Error ''boom'')), EvError (Error ''boom''), EvCancel]\<rparr>)"
    by (intro pull_fail) (simp_all add: opened_simps)
  finally show ?thesis
    by (simp add: opened_def upstream_of_def fresh_controller_def relay_def
        fragment_payload_fragment)
qed

lemma slow_consumer_a_fail:
  "observes [] n
     [EvRead (Value (Item (fragment ''a''))),
      EvEnqueue (record_of (role_member @ content_member (JStr ''a''))),
      EvRead (Raise (Error ''boom'')), EvError (Error ''boom''), EvCancel]
   = replicate n (Failed (Error ''boom''))"
proof -
  let ?d = "deliver (EvError (Error ''boom''))
    (deliver (EvEnqueue (record_of (role_member @ content_member (JStr ''a'')))) fresh_downstream)"
  have "dstate ?d = Errored (Error ''boom'')" by simp
  from consumer_reads_errored [OF this, of n]
  have "seen ((consumer_read ^^ n) ?d) = seen ?d @ replicate n (Failed (Error ''boom''))"
    by simp
  moreover have "seen ?d = []"
    by (simp add: fresh_downstream_def)
  ultimately show ?thesis
    by (simp add: observes_def)
qed

section \<open>The claims\<close>

text \<open>
  Claim C1 says that every output stream, however the upstream behaves, ends with exactly
  one \<^verbatim>\<open>[DONE]\<close> frame. When the second read of an incremental stream fails, the catch
  block errors the stream instead: the only frame emitted is the content frame of the
  first fragment.
\<close>

theorem C1_counterexample:
  "stream (always (MessageStream (upstream_of reads_a_fail))) [Obj []] (HRef 0)
     = Value (Proxy (opened reads_a_fail))
   \<and> frames (trace_of (snd (host_pull (Proxy (opened reads_a_fail)))))
     = [record_of (role_member @ content_member (JStr ''a''))]
   \<and> done_payload \<notin> set (frames (trace_of (snd (host_pull (Proxy (opened reads_a_fail))))))"
proof -
  let ?s1 = "(opened reads_a_fail)\<lparr>src := (src (opened reads_a_fail))\<lparr>pending := [Fail (Error ''boom'')]\<rparr>,
      trace := trace (opened reads_a_fail) @ [EvRead (Value (Item (fragment ''a''))), EvEnqueue (fragment_payload (fragment ''a''))]\<rparr>"
  have "pull (opened reads_a_fail) = pull ?s1"
    by (intro pull_chunk) (simp_all add: opened_simps reads_a_fail_def fragment_not_nullish)
  also have "pull ?s1 = (Value (), ?s1\<lparr>ctl := (ctl ?s1)\<lparr>cstate := Errored (Error ''boom'')\<rparr>,
      src := (src ?s1)\<lparr>pending := [], ustate := UErrored (Error ''boom'')\<rparr>,
      trace := trace ?s1 @ [EvRead (Raise (Error ''boom'')), EvError (Error ''boom''), EvCancel]\<rparr>)"
    by (intro pull_fail) (simp_all add: opened_simps)
  finally have "frames (trace (snd (pull (opened reads_a_fail)))) = [fragment_payload (fragment ''a'')]"
    by (simp add: opened_simps frames_def)
  moreover have "stream (always (MessageStream (upstream_of reads_a_fail))) [Obj []] (HRef 0)
     = Value (Proxy (opened reads_a_fail))"
    by (rule stream_over_upstream [where chainFn = "always (MessageStream (upstream_of reads_a_fail))",
          OF transformProps_empty _ streamResult_opened])
      (simp add: always_def)
  ultimately show ?thesis
    using done_not_fragment [of "fragment ''a''"]
    by (simp add: opened_simps fragment_payload_fragment case_prod_beta)
qed

text \<open>
  Claim C1, amended. Every output stream the adapter returns emits zero or more content
  frames followed by at most one \<^verbatim>\<open>[DONE]\<close> frame, and no frame after it, whatever the host
  calls next (a further pull, a cancel). The \<^verbatim>\<open>[DONE]\<close> frame is there for a message chunk
  and for a string, and for an incremental stream exactly when the upstream delivers
  end-of-sequence: not after a failed read, a fragment that is \<^verbatim>\<open>undefined\<close> or \<^verbatim>\<open>null\<close>,
  or a read that never settles.
\<close>

theorem C1_content_frames_then_at_most_one_done:
  assumes "stream chainFn h forwardedProps = Value rs"
  shows "\<exists>cs. (\<forall>p\<in>set cs. \<exists>c f. p = content_payload c f) \<and> done_payload \<notin> set cs \<and>
     frames (trace_of (snd (host_pull rs))) = cs @ (if delivers_end rs then [done_payload] else []) \<and>
     frames (trace_of (snd (host_pull (snd (host_pull rs))))) = frames (trace_of (snd (host_pull rs))) \<and>
     frames (trace_of (snd (host_cancel (snd (host_pull rs))))) = frames (trace_of (snd (host_pull rs)))"
proof -
  from stream_cases [OF assms]
  consider up s0 where "rs = Proxy s0" "streamResult up = Inr s0"
    | c f s where "rs = Single s" "SingleChunkReadableStream c f = Inr s"
    by blast
  then show ?thesis
  proof cases
    case 1
    from streamResult_fresh [OF 1(2)]
    have s0: "can_close_or_enqueue (ctl s0)" "trace s0 = []" by simp_all
    from pull_summary [OF s0(1)] obtain cs where
      cs: "\<forall>p\<in>set cs. \<exists>c f. p = content_payload c f"
        "frames (trace (snd (pull s0))) =
           frames (trace s0) @ cs @ (if reaches_end (src s0) then [done_payload] else [])"
      by blast
    have hp: "snd (host_pull rs) = Proxy (snd (pull s0))"
      using 1(1) s0(1) by (simp add: case_prod_beta)
    have nd: "done_payload \<notin> set cs"
      using cs(1) content_not_done by metis
    have f1: "frames (trace (snd (pull s0))) = cs @ (if delivers_end rs then [done_payload] else [])"
      using cs(2) s0(2) 1(1) by (simp add: frames_def)
    note f2 = frames_after_second_pull [OF s0(1)]
    note f3 = frames_after_host_cancel_proxy [of "snd (pull s0)"]
    show ?thesis
      unfolding hp trace_of.simps using cs(1) nd f1 f2 f3 by blast
  next
    case 2
    let ?c = "content_payload (if c = JUndefined then JStr [] else c) f"
    from 2(2) have s: "s = \<lparr>ctl = \<lparr>cstate = Readable, closeRequested = True\<rparr>, src = (),
          trace = [EvEnqueue ?c, EvEnqueue done_payload, EvClose]\<rparr>"
      by (simp add: single_chunk_built)
    have nd: "done_payload \<notin> set [?c]"
      using content_not_done [of "if c = JUndefined then JStr [] else c" f] by auto
    have cf: "\<forall>p\<in>set [?c]. \<exists>c f. p = content_payload c f"
      by auto
    have hp: "snd (host_pull rs) = Single s"
      using 2(1) by simp
    have f1: "frames (trace s) = [?c] @ (if delivers_end rs then [done_payload] else [])"
      using 2(1) by (simp add: s frames_def)
    have f2: "frames (trace_of (snd (host_pull (Single s)))) = frames (trace s)"
      by simp
    note f3 = frames_after_host_cancel_single [of s]
    show ?thesis
      unfolding hp trace_of.simps using cf nd f1 f2 f3 by blast
  qed
qed

theorem C1_witness:
  "stream (always (PlainString ''hello'')) [Obj []] (HRef 0) = Value (Single hello_stream)
   \<and> (\<exists>cs. done_payload \<notin> set cs \<and>
         frames (trace_of (snd (host_pull (Single hello_stream)))) = cs @ [done_payload])"
proof -
  have s: "stream (always (PlainString ''hello'')) [Obj []] (HRef 0) = Value (Single hello_stream)"
    by (simp add: stream_def transformProps_empty always_def of_sum_def single_chunk_built
        hello_stream_def)
  from C1_content_frames_then_at_most_one_done [OF s] s show ?thesis
    by auto
qed


text \<open>
  Claim C3 says that the two frames of single-shot mode are produced on the stream's first
  pull. The class has no \<^verbatim>\<open>pull\<close>: once the constructor has returned, both frames are
  enqueued already, and a pull by the host adds nothing.
\<close>

theorem C3_counterexample:
  "SingleChunkReadableStream (JStr ''hello'') JUndefined = Inr hello_stream
   \<and> length (frames (trace hello_stream)) = 2
   \<and> host_pull (Single hello_stream) = (Value (), Single hello_stream)"
  by (simp add: single_chunk_built hello_stream_def frames_def)

text \<open>
  Claim C3, amended. In single-shot mode the constructor's \<^verbatim>\<open>start\<close> callback enqueues
  exactly two frames, synchronously and in order (the content frame with the content and
  the optional function call, then \<^verbatim>\<open>[DONE]\<close>), and closes the stream; after that the host
  pulls no more and a further enqueue would throw. Content \<^verbatim>\<open>hello\<close> without a function
  call gives the record with \<^verbatim>\<open>role\<close> \<^verbatim>\<open>assistant\<close>, \<^verbatim>\<open>content\<close> \<^verbatim>\<open>hello\<close> and no
  \<^verbatim>\<open>function_call\<close> key, then \<^verbatim>\<open>[DONE]\<close>.
\<close>

theorem C3_two_frames_at_construction:
  "(\<exists>s. SingleChunkReadableStream content functionCall = Inr s
      \<and> trace s = [EvEnqueue (content_payload (if content = JUndefined then JStr [] else content) functionCall),
                   EvEnqueue done_payload, EvClose]
      \<and> closeRequested (ctl s) \<and> \<not> can_close_or_enqueue (ctl s)
      \<and> host_pull (Single s) = (Value (), Single s)
      \<and> fst (controller_enqueue p s) = Raise TypeError)
   \<and> (\<exists>s. SingleChunkReadableStream (JStr ''hello'') JUndefined = Inr s
      \<and> frames (trace s) =
          [TextEncoder_encode
             (''data: {'' @ dq # ''choices'' @ dq # '':[{'' @ dq # ''delta'' @ dq # '':{''
              @ dq # ''role'' @ dq # '':'' @ dq # ''assistant'' @ dq # '',''
              @ dq # ''content'' @ dq # '':'' @ dq # ''hello'' @ dq # ''}}]}'' @ [nl, nl]),
           TextEncoder_encode (''data: [DONE]'' @ [nl, nl])])"
proof -
  have hello: "content_payload (JStr ''hello'') JUndefined =
      TextEncoder_encode
             (''data: {'' @ dq # ''choices'' @ dq # '':[{'' @ dq # ''delta'' @ dq # '':{''
              @ dq # ''role'' @ dq # '':'' @ dq # ''assistant'' @ dq # '',''
              @ dq # ''content'' @ dq # '':'' @ dq # ''hello'' @ dq # ''}}]}'' @ [nl, nl])"
    by (simp add: content_payload_def JSON_stringify_def chat_chunk_def object_member_def
        array_element_def quote_def escape_char_def dq_def bsl_def)
  show ?thesis
    by (simp add: single_chunk_built can_close_or_enqueue_def controller_enqueue_def
        frames_def hello done_payload_def)
qed

text \<open>
  Claim C4. In stream-pull mode, for every sequence of upstream reads: each read that
  delivers a fragment is followed at once by the enqueueing of exactly one content frame,
  built from that fragment, after which the pull awaits the next read (the event
  \<open>EvRead r\<close>); the frames reach the sink in the order the fragments were read; and the
  terminal frame, emitted when the upstream delivers end-of-sequence, is the last frame
  of the stream.
\<close>

theorem C4_one_frame_per_read_in_order:
  assumes "\<forall>v\<in>set vs. \<not> nullish v"
    and "pending up = map Chunk vs @ tail" and "ustate up = UReadable"
    and "streamResult up = Inr st"
  shows "\<exists>r t. trace (snd (pull st)) = relay vs @ EvRead r # t
     \<and> frames (trace (snd (pull st))) = map fragment_payload vs @ frames t
     \<and> (\<forall>rest. tail = End # rest \<longrightarrow>
          fst (pull st) = Value ()
          \<and> r = Value Done \<and> t = [EvEnqueue done_payload, EvClose, EvCancel])
     \<and> (done_payload \<in> set (frames (trace (snd (pull st)))) \<longrightarrow>
          (\<exists>cs. frames (trace (snd (pull st))) = cs @ [done_payload] \<and> done_payload \<notin> set cs))"
proof -
  from streamResult_fresh [OF assms(4)] assms(2,3)
  have st: "can_close_or_enqueue (ctl st)" "trace st = []"
    "pending (src st) = map Chunk vs @ tail" "ustate (src st) = UReadable"
    by simp_all
  let ?s1 = "st\<lparr>src := (src st)\<lparr>pending := tail\<rparr>, trace := trace st @ relay vs\<rparr>"
  have step: "pull st = pull ?s1"
    using st assms(1) by (intro pull_chunks) simp_all
  from pull_starts_with_read [of ?s1] obtain r t where
    t: "trace (snd (pull ?s1)) = trace ?s1 @ EvRead r # t" by blast
  have tr: "trace (snd (pull st)) = relay vs @ EvRead r # t"
    using t st(2) by (simp add: step)
  have fr: "frames (trace (snd (pull st))) = map fragment_payload vs @ frames t"
    unfolding tr by (simp add: frames_append frames_relay) (simp add: frames_def)
  have fin: "fst (pull st) = Value () \<and> r = Value Done \<and> t = [EvEnqueue done_payload, EvClose, EvCancel]"
    if "tail = End # rest" for rest
  proof -
    have "pull ?s1 = (Value (), ?s1\<lparr>ctl := (ctl ?s1)\<lparr>closeRequested := True\<rparr>,
        src := (src ?s1)\<lparr>pending := rest, ustate := UClosed\<rparr>,
        trace := trace ?s1 @ [EvRead (Value Done), EvEnqueue done_payload, EvClose, EvCancel]\<rparr>)"
      using st that by (intro pull_end) simp_all
    with t show ?thesis by (simp add: step)
  qed
  from pull_summary [OF st(1)] obtain cs where
    cs: "\<forall>p\<in>set cs. \<exists>c f. p = content_payload c f"
      "frames (trace (snd (pull st))) =
         frames (trace st) @ cs @ (if reaches_end (src st) then [done_payload] else [])"
    by blast
  have nd: "done_payload \<notin> set cs"
    using cs(1) content_not_done by metis
  have last: "\<exists>cs. frames (trace (snd (pull st))) = cs @ [done_payload] \<and> done_payload \<notin> set cs"
    if "done_payload \<in> set (frames (trace (snd (pull st))))"
    using that cs(2) nd st(2) by (cases "reaches_end (src st)") (auto simp: frames_def)
  show ?thesis
    using tr fr fin last by blast
qed

theorem C4_witness:
  "\<not> nullish (fragment ''a'') \<and> \<not> nullish (fragment ''b'')
   \<and> pending (upstream_of reads_a_b) = map Chunk [fragment ''a'', fragment ''b''] @ End # []
   \<and> ustate (upstream_of reads_a_b) = UReadable
   \<and> streamResult (upstream_of reads_a_b) = Inr (opened reads_a_b)
   \<and> fst (pull (opened reads_a_b)) = Value ()
   \<and> trace (snd (pull (opened reads_a_b))) =
        [EvRead (Value (Item (fragment ''a''))), EvEnqueue (fragment_payload (fragment ''a'')),
         EvRead (Value (Item (fragment ''b''))), EvEnqueue (fragment_payload (fragment ''b'')),
         EvRead (Value Done), EvEnqueue done_payload, EvClose, EvCancel]
   \<and> frames (trace (snd (pull (opened reads_a_b)))) =
        [fragment_payload (fragment ''a''), fragment_payload (fragment ''b''), done_payload]"
proof -
  have a: "\<forall>v\<in>set [fragment ''a'', fragment ''b'']. \<not> nullish v"
    by (simp add: fragment_not_nullish)
  have b: "pending (upstream_of reads_a_b) = map Chunk [fragment ''a'', fragment ''b''] @ End # []"
    by (simp add: upstream_of_def reads_a_b_def)
  have c: "ustate (upstream_of reads_a_b) = UReadable"
    by (simp add: upstream_of_def)
  note d = streamResult_opened [of reads_a_b]
  from C4_one_frame_per_read_in_order [OF a b c d]
  obtain r t where t: "trace (snd (pull (opened reads_a_b))) = relay [fragment ''a'', fragment ''b''] @ EvRead r # t"
    "frames (trace (snd (pull (opened reads_a_b)))) = map fragment_payload [fragment ''a'', fragment ''b''] @ frames t"
    "fst (pull (opened reads_a_b)) = Value ()"
    "t = [EvEnqueue done_payload, EvClose, EvCancel]" "r = Value Done"
    by blast
  have e: "trace (snd (pull (opened reads_a_b))) =
        [EvRead (Value (Item (fragment ''a''))), EvEnqueue (fragment_payload (fragment ''a'')),
         EvRead (Value (Item (fragment ''b''))), EvEnqueue (fragment_payload (fragment ''b'')),
         EvRead (Value Done), EvEnqueue done_payload, EvClose, EvCancel]"
    unfolding t(1) t(4) t(5) by (simp add: relay_def)
  have f: "frames (trace (snd (pull (opened reads_a_b)))) =
        [fragment_payload (fragment ''a''), fragment_payload (fragment ''b''), done_payload]"
    unfolding t(2) t(4) by (simp add: frames_def)
  show ?thesis
    by (intro conjI fragment_not_nullish b c d t(3) e f)
qed

text \<open>
  Claim C5 says that after a failed read the consumer observes the frames already emitted
  (content \<^verbatim>\<open>a\<close>) and then the error. Erroring the stream empties its queue, and \<^verbatim>\<open>pull\<close>
  enqueues without waiting for the consumer to ask. So for a consumer that has not read
  before the second read fails, the frame \<^verbatim>\<open>a\<close> was emitted and is lost: every read it makes
  is rejected with the error, and it never observes \<^verbatim>\<open>a\<close>.
\<close>

theorem C5_counterexample:
  "streamResult (upstream_of reads_a_fail) = Inr (opened reads_a_fail)
   \<and> fst (pull (opened reads_a_fail)) = Value ()
   \<and> frames (trace (snd (pull (opened reads_a_fail))))
       = [record_of (role_member @ content_member (JStr ''a''))]
   \<and> cstate (ctl (snd (pull (opened reads_a_fail)))) = Errored (Error ''boom'')
   \<and> (\<forall>n. observes [] n (trace (snd (pull (opened reads_a_fail))))
            = replicate n (Failed (Error ''boom'')))
   \<and> (\<forall>n. Got (record_of (role_member @ content_member (JStr ''a'')))
            \<notin> set (observes [] n (trace (snd (pull (opened reads_a_fail))))))"
  by (simp add: streamResult_opened pull_reads_a_fail frames_def slow_consumer_a_fail)

text \<open>
  Claim C5, amended. When a read from the open upstream stream fails after the fragments
  \<open>vs\<close> were delivered, \<^verbatim>\<open>stream\<close> has already returned the output stream without reading;
  the pull enqueues the frames of \<open>vs\<close>, then errors the stream with the upstream's
  error and returns normally. No \<^verbatim>\<open>[DONE]\<close> frame and no further frame is emitted, the
  cursor's release is attempted exactly once, the host pulls no more, and running cleanup
  again changes neither the sink nor the cursor. The consumer, whenever it reads,
  observes in order the first frames of those emitted (the ones it took before the
  failure) and after them only the error; the consumer that asks at every step observes
  all of them, then the error. What the consumer has observed at any moment of the run
  is the beginning of what it has observed at the end. The frame of a fragment with
  content \<^verbatim>\<open>a\<close> is the record with content \<^verbatim>\<open>a\<close>.
\<close>

theorem C5_read_failure_errors_the_stream:
  assumes "\<forall>v\<in>set vs. \<not> nullish v"
    and "pending up = map Chunk vs @ Fail e # tail" and "ustate up = UReadable"
    and "transformProps h forwardedProps = Inr (h', forwardedProps')"
    and "chainFn h' forwardedProps' = Value (MessageStream up)"
    and "streamResult up = Inr s0"
  shows "stream chainFn h forwardedProps = Value (Proxy s0) \<and> trace s0 = [] \<and>
    (\<exists>s'. pull s0 = (Value (), s') \<and>
       trace s' = relay vs @ [EvRead (Raise e), EvError e, EvCancel] \<and>
       frames (trace s') = map fragment_payload vs \<and>
       done_payload \<notin> set (frames (trace s')) \<and>
       cstate (ctl s') = Errored e \<and>
       length (filter (\<lambda>x. x = EvCancel) (trace s')) = 1 \<and>
       host_pull (Proxy s') = (Value (), Proxy s') \<and>
       (\<exists>s''. cleanup True s' = (Value (), s'') \<and> ctl s'' = ctl s' \<and> src s'' = src s'
          \<and> frames (trace s'') = frames (trace s')) \<and>
       (\<forall>sched n. \<exists>j m. j \<le> length vs \<and> n \<le> m \<and>
          observes sched n (trace s')
            = map Got (take j (map fragment_payload vs)) @ replicate m (Failed e)) \<and>
       (\<forall>n. observes (replicate (Suc (length vs)) 1) n (trace s')
            = map Got (map fragment_payload vs) @ replicate (Suc n) (Failed e)) \<and>
       (\<forall>sched n i. \<exists>rest.
          observes sched n (trace s') = observes sched 0 (take i (trace s')) @ rest))"
proof -
  from streamResult_fresh [OF assms(6)] assms(2,3)
  have s0: "can_close_or_enqueue (ctl s0)" "trace s0 = []"
    "pending (src s0) = map Chunk vs @ Fail e # tail" "ustate (src s0) = UReadable"
    by simp_all
  let ?s1 = "s0\<lparr>src := (src s0)\<lparr>pending := Fail e # tail\<rparr>, trace := trace s0 @ relay vs\<rparr>"
  let ?s2 = "?s1\<lparr>ctl := (ctl ?s1)\<lparr>cstate := Errored e\<rparr>,
      src := (src ?s1)\<lparr>pending := tail, ustate := UErrored e\<rparr>,
      trace := trace ?s1 @ [EvRead (Raise e), EvError e, EvCancel]\<rparr>"
  have "pull s0 = pull ?s1"
    using s0 assms(1) by (intro pull_chunks) simp_all
  also have "pull ?s1 = (Value (), ?s2)"
    using s0 by (intro pull_end pull_fail) simp_all
  finally have p: "pull s0 = (Value (), ?s2)" .
  have tr: "trace ?s2 = relay vs @ [EvRead (Raise e), EvError e, EvCancel]"
    using s0 by simp
  have fr: "frames (trace ?s2) = map fragment_payload vs"
    unfolding tr by (simp add: frames_append frames_relay) (simp add: frames_def)
  have nd: "done_payload \<notin> set (frames (trace ?s2))"
    unfolding fr by (auto simp: done_not_fragment)
  have closed: "\<not> can_close_or_enqueue (ctl ?s2)" "ustate (src ?s2) \<noteq> UReadable"
    by (simp_all add: can_close_or_enqueue_def)
  from cleanup_again [OF closed, of True]
  obtain s'' where again: "cleanup True ?s2 = (Value (), s'')" "ctl s'' = ctl ?s2"
    "src s'' = src ?s2" "trace s'' = trace ?s2 @ [EvCancel]"
    by blast
  have "frames (trace s'') = frames (trace ?s2)"
    unfolding again(4) by (simp add: frames_append) (simp add: frames_def)
  with again have idem: "\<exists>s''. cleanup True ?s2 = (Value (), s'') \<and> ctl s'' = ctl ?s2
      \<and> src s'' = src ?s2 \<and> frames (trace s'') = frames (trace ?s2)"
    by blast
  have once: "length (filter (\<lambda>x. x = EvCancel) (trace ?s2)) = 1"
    unfolding tr by (simp add: no_cancel_in_relay)
  have hp: "host_pull (Proxy ?s2) = (Value (), Proxy ?s2)"
    using closed(1) by simp
  have err: "cstate (ctl ?s2) = Errored e" by simp
  have some: "\<forall>sched n. \<exists>j m. j \<le> length vs \<and> n \<le> m \<and>
      observes sched n (trace ?s2)
        = map Got (take j (map fragment_payload vs)) @ replicate m (Failed e)"
    unfolding tr by (intro allI observes_failed_read)
  have eager: "\<forall>n. observes (replicate (Suc (length vs)) 1) n (trace ?s2)
        = map Got (map fragment_payload vs) @ replicate (Suc n) (Failed e)"
    unfolding tr by (intro allI observes_eager)
  have kept: "\<forall>sched n i. \<exists>rest.
      observes sched n (trace ?s2) = observes sched 0 (take i (trace ?s2)) @ rest"
    by (intro allI observes_grows)
  have run: "\<exists>s'. pull s0 = (Value (), s') \<and>
       trace s' = relay vs @ [EvRead (Raise e), EvError e, EvCancel] \<and>
       frames (trace s') = map fragment_payload vs \<and>
       done_payload \<notin> set (frames (trace s')) \<and>
       cstate (ctl s') = Errored e \<and>
       length (filter (\<lambda>x. x = EvCancel) (trace s')) = 1 \<and>
       host_pull (Proxy s') = (Value (), Proxy s') \<and>
       (\<exists>s''. cleanup True s' = (Value (), s'') \<and> ctl s'' = ctl s' \<and> src s'' = src s'
          \<and> frames (trace s'') = frames (trace s')) \<and>
       (\<forall>sched n. \<exists>j m. j \<le> length vs \<and> n \<le> m \<and>
          observes sched n (trace s')
            = map Got (take j (map fragment_payload vs)) @ replicate m (Failed e)) \<and>
       (\<forall>n. observes (replicate (Suc (length vs)) 1) n (trace s')
            = map Got (map fragment_payload vs) @ replicate (Suc n) (Failed e)) \<and>
       (\<forall>sched n i. \<exists>rest.
          observes sched n (trace s') = observes sched 0 (take i (trace s')) @ rest)"
    by (rule exI [of _ ?s2]) (intro conjI p tr fr nd err once hp idem some eager kept)
  from stream_over_upstream [where chainFn = chainFn, OF assms(4,5,6)] s0(2) run
  show ?thesis
    by (intro conjI)
qed

theorem C5_witness:
  "\<not> nullish (fragment ''a'')
   \<and> pending (upstream_of reads_a_fail) = map Chunk [fragment ''a''] @ Fail (Error ''boom'') # []
   \<and> ustate (upstream_of reads_a_fail) = UReadable
   \<and> transformProps [Obj []] (HRef 0) = Inr ([Obj [], Obj []], HRef 1)
   \<and> always (MessageStream (upstream_of reads_a_fail)) [Obj [], Obj []] (HRef 1)
       = Value (MessageStream (upstream_of reads_a_fail))
   \<and> streamResult (upstream_of reads_a_fail) = Inr (opened reads_a_fail)
   \<and> stream (always (MessageStream (upstream_of reads_a_fail))) [Obj []] (HRef 0)
       = Value (Proxy (opened reads_a_fail))
   \<and> fst (pull (opened reads_a_fail)) = Value ()
   \<and> trace (snd (pull (opened reads_a_fail)))
       = [EvRead (Value (Item (fragment ''a''))),
          EvEnqueue (record_of (role_member @ content_member (JStr ''a''))),
          EvRead (Raise (Error ''boom'')), EvError (Error ''boom''), EvCancel]
   \<and> cstate (ctl (snd (pull (opened reads_a_fail)))) = Errored (Error ''boom'')
   \<and> observes [1, 1] 0 (trace (snd (pull (opened reads_a_fail))))
       = [Got (record_of (role_member @ content_member (JStr ''a''))), Failed (Error ''boom'')]
   \<and> observes [] 1 (trace (snd (pull (opened reads_a_fail)))) = [Failed (Error ''boom'')]"
proof -
  let ?up = "upstream_of reads_a_fail"
  have a: "\<forall>v\<in>set [fragment ''a'']. \<not> nullish v"
    by (simp add: fragment_not_nullish)
  have b: "pending ?up = map Chunk [fragment ''a''] @ Fail (Error ''boom'') # []"
    by (simp add: upstream_of_def reads_a_fail_def)
  have c: "ustate ?up = UReadable"
    by (simp add: upstream_of_def)
  have d: "always (MessageStream ?up) [Obj [], Obj []] (HRef 1) = Value (MessageStream ?up)"
    by (simp add: always_def)
  note e = streamResult_opened [of reads_a_fail]
  note r = C5_read_failure_errors_the_stream [where chainFn = "always (MessageStream ?up)",
        OF a b c transformProps_empty d e]
  from r have st: "stream (always (MessageStream ?up)) [Obj []] (HRef 0)
      = Value (Proxy (opened reads_a_fail))"
    by (rule conjunct1)
  from r [THEN conjunct2, THEN conjunct2] obtain s' where
    p: "pull (opened reads_a_fail) = (Value (), s')"
    and tr: "trace s' = relay [fragment ''a''] @ [EvRead (Raise (Error ''boom'')), EvError (Error ''boom''), EvCancel]"
    and err: "cstate (ctl s') = Errored (Error ''boom'')"
    and eager: "\<forall>n. observes (replicate (Suc (length [fragment ''a''])) 1) n (trace s')
        = map Got (map fragment_payload [fragment ''a'']) @ replicate (Suc n) (Failed (Error ''boom''))"
    by (elim exE conjE)
  from p have s': "snd (pull (opened reads_a_fail)) = s'" and v: "fst (pull (opened reads_a_fail)) = Value ()"
    by simp_all
  have tr': "trace s' = [EvRead (Value (Item (fragment ''a''))),
          EvEnqueue (record_of (role_member @ content_member (JStr ''a''))),
          EvRead (Raise (Error ''boom'')), EvError (Error ''boom''), EvCancel]"
    unfolding tr by (simp add: relay_def fragment_payload_fragment)
  from eager [rule_format, of 0]
  have o1: "observes [1, 1] 0 (trace s')
       = [Got (record_of (role_member @ content_member (JStr ''a''))), Failed (Error ''boom'')]"
    by (simp add: fragment_payload_fragment)
  have o2: "observes [] 1 (trace s') = [Failed (Error ''boom'')]"
    unfolding tr' by (simp add: observes_def consumer_read_def fresh_downstream_def)
  show ?thesis
    unfolding s'
    by (intro conjI fragment_not_nullish b c transformProps_empty d e st v [unfolded s'] tr' err o1 o2)
qed

text \<open>
  Claim C6. \<^verbatim>\<open>cleanup\<close> never raises, in any state of the sink and of the cursor, with or
  without a controller: what \<^verbatim>\<open>controller.close()\<close> or \<^verbatim>\<open>reader.cancel()\<close> throws is
  swallowed. So a pull never rejects, the \<^verbatim>\<open>cancel\<close> callbacks of both modes never
  raise, and cancelling a stream of either mode before any pull does not raise.
\<close>

theorem C6_cleanup_never_raises:
  "(\<exists>s'. cleanup has_controller s = (Value (), s'))
   \<and> fst (pull s) \<noteq> Raise e
   \<and> fst (cancel s) = Value ()
   \<and> fst (single_cancel t) = Value ()
   \<and> (streamResult up = Inr s0 \<longrightarrow> fst (host_cancel (Proxy s0)) = Value ())
   \<and> (SingleChunkReadableStream c f = Inr t0 \<longrightarrow> fst (host_cancel (Single t0)) = Value ())"
proof -
  have a: "\<exists>s'. cleanup has_controller s = (Value (), s')"
    using cleanup_value [of has_controller s] by blast
  have b: "fst (host_cancel (Proxy s0)) = Value ()" if "streamResult up = Inr s0"
    using streamResult_fresh [OF that]
    by (simp add: can_close_or_enqueue_def cancel_def split: prod.splits)
  have c: "fst (host_cancel (Single t0)) = Value ()" if "SingleChunkReadableStream c f = Inr t0"
    using that by (auto simp: single_chunk_built single_cancel_def)
  show ?thesis
    using a b c pull_no_raise [of s e] by (simp add: cancel_def single_cancel_def)
qed

theorem C6_witness:
  "fst (controller_close stubborn) = Raise TypeError
   \<and> fst (reader_cancel stubborn) = Raise (Error ''busy'')
   \<and> (\<exists>s'. cleanup True stubborn = (Value (), s'))
   \<and> fst (pull stubborn) \<noteq> Raise TypeError
   \<and> fst (cancel stubborn) = Value ()
   \<and> streamResult (upstream_of []) = Inr (opened [])
   \<and> fst (host_cancel (Proxy (opened []))) = Value ()
   \<and> SingleChunkReadableStream (JStr ''hello'') JUndefined = Inr hello_stream
   \<and> fst (host_cancel (Single hello_stream)) = Value ()"
proof -
  have a: "fst (controller_close stubborn) = Raise TypeError"
    by (simp add: controller_close_def stubborn_def can_close_or_enqueue_def)
  have b: "fst (reader_cancel stubborn) = Raise (Error ''busy'')"
    by (simp add: reader_cancel_def stubborn_def)
  have c: "SingleChunkReadableStream (JStr ''hello'') JUndefined = Inr hello_stream"
    by (simp add: single_chunk_built hello_stream_def)
  note d = streamResult_opened [of "[]"]
  show ?thesis
    using a b c d
      C6_cleanup_never_raises [of True stubborn TypeError hello_stream "upstream_of []" "opened []"
        "JStr ''hello''" JUndefined hello_stream]
    by simp
qed

text \<open>
  Claim C7. Take a request whose \<^verbatim>\<open>messages\<close> is an array of turns as the specification
  types them: no turn is \<^verbatim>\<open>undefined\<close> or \<^verbatim>\<open>null\<close>, and the content of a turn whose role is
  \<^verbatim>\<open>user\<close>, \<^verbatim>\<open>assistant\<close> or \<^verbatim>\<open>system\<close> is a string. Then \<^verbatim>\<open>transformProps\<close> returns without
  an error, and the \<^verbatim>\<open>messages\<close> of the transformed request are, in the original order, a
  \<^verbatim>\<open>HumanMessage\<close> for each \<^verbatim>\<open>user\<close> turn, an \<^verbatim>\<open>AIMessage\<close> for each \<^verbatim>\<open>assistant\<close> turn and a
  \<^verbatim>\<open>SystemMessage\<close> for each \<^verbatim>\<open>system\<close> turn, each with the turn's content; a turn with any
  other role (\<^verbatim>\<open>tool\<close>, say) is dropped.
\<close>

theorem C7_turns_mapped_by_role:
  assumes "heap_get h a = Some (Obj kvs)" and "lookup kvs ''messages'' = HRef m"
    and "heap_get h m = Some (Arr turns ps)" and "\<forall>t\<in>set turns. turn_ok h t"
  shows "\<exists>h' n. transformProps h (HRef a) = Inr (h', HRef (length h))
     \<and> field h' (HRef (length h)) ''messages'' = Inr (HRef n) \<and> length h < n
     \<and> messages_at h' (HRef n) = map Some (transformed_turns h turns)"
proof -
  let ?c = "length h"
  let ?n = "Suc (length h)"
  let ?h1 = "h @ [Obj kvs]"
  let ?h2 = "?h1 @ [Arr [] []]"
  from assms(1) have a: "a < length h" "h ! a = Obj kvs"
    by (simp_all add: heap_get_def split: if_splits)
  from assms(3) have m: "m < length h" "h ! m = Arr turns ps"
    by (simp_all add: heap_get_def split: if_splits)
  have props: "own_props h (HRef a) = kvs"
    using assms(1) by (simp add: own_props_def)
  have msgs: "field ?h1 (HRef a) ''messages'' = Inr (HRef m)"
    using a assms(2) by (simp add: field_def heap_get_def nth_append)
  have elems: "array_elements ?h1 (HRef m) = Some turns"
    using m by (simp add: array_elements_def heap_get_def nth_append)
  have "\<exists>h' rs'. push_messages ?h2 ?n turns = (None, h') \<and> h' ! ?n = Arr ([] @ rs') []
      \<and> length ?h2 \<le> length h' \<and> (\<forall>a<length ?h2. a \<noteq> ?n \<longrightarrow> h' ! a = ?h2 ! a)
      \<and> (\<forall>r\<in>set rs'. \<exists>b. r = HRef b \<and> length ?h2 \<le> b)
      \<and> map (deref h') rs' = map Some (transformed_turns h turns)"
    using assms(4) by (intro push_messages_spec) (simp_all add: nth_append)
  then obtain h3 rs' where h3: "push_messages ?h2 ?n turns = (None, h3)" "h3 ! ?n = Arr rs' []"
    "length ?h2 \<le> length h3" "\<forall>a<length ?h2. a \<noteq> ?n \<longrightarrow> h3 ! a = ?h2 ! a"
    "\<forall>r\<in>set rs'. \<exists>b. r = HRef b \<and> length ?h2 \<le> b"
    "map (deref h3) rs' = map Some (transformed_turns h turns)"
    by auto
  let ?h' = "set_field h3 ?c ''messages'' (HRef ?n)"
  have run: "transformProps h (HRef a) = Inr (?h', HRef ?c)"
    using props msgs elems h3(1) by (simp add: transformProps_def run_transformProps_def alloc_def)
  have c3: "h3 ! ?c = Obj kvs"
    using h3(4) by (simp add: nth_append)
  have c': "?h' ! ?c = Obj (set_prop kvs ''messages'' (HRef ?n))"
    using h3(3) c3 by (intro set_field_at) simp_all
  have fld: "field ?h' (HRef ?c) ''messages'' = Inr (HRef ?n)"
    using h3(3) c' by (simp add: field_def heap_get_def set_field_length lookup_set_prop)
  have n': "?h' ! ?n = Arr rs' []"
    using h3(2) by (simp add: set_field_other)
  have "deref ?h' r = deref h3 r" if "r \<in> set rs'" for r
    using h3(5) that by (auto simp: deref_def heap_get_def set_field_length set_field_other)
  then have "map (deref ?h') rs' = map (deref h3) rs'"
    by simp
  with h3(3,6) n' have at: "messages_at ?h' (HRef ?n) = map Some (transformed_turns h turns)"
    by (simp add: messages_at_def array_elements_def heap_get_def set_field_length)
  from run fld at show ?thesis
    by (intro exI [of _ ?h'] exI [of _ ?n]) simp
qed

theorem C7_witness:
  "heap_get request_heap 0 = Some (Obj [(''messages'', HRef 1), (''temperature'', HNum 1)])
   \<and> lookup [(''messages'', HRef 1), (''temperature'', HNum 1)] ''messages'' = HRef 1
   \<and> heap_get request_heap 1 = Some (Arr [HRef 2, HRef 3, HRef 4] [])
   \<and> turn_ok request_heap (HRef 2) \<and> turn_ok request_heap (HRef 3) \<and> turn_ok request_heap (HRef 4)
   \<and> transformed_turns request_heap [HRef 2, HRef 3, HRef 4]
       = [HumanMessage (HStr ''hi''), SystemMessage (HStr ''be brief'')]
   \<and> transformProps request_heap (HRef 0) = Inr (transformed_heap, HRef 5)
   \<and> messages_at transformed_heap (HRef 6)
       = [Some (HumanMessage (HStr ''hi'')), Some (SystemMessage (HStr ''be brief''))]"
proof -
  have o: "heap_get request_heap 0 = Some (Obj [(''messages'', HRef 1), (''temperature'', HNum 1)])"
    by (simp add: request_heap_def heap_get_def)
  have l: "lookup [(''messages'', HRef 1), (''temperature'', HNum 1)] ''messages'' = HRef 1"
    by (simp add: lookup_def)
  have m: "heap_get request_heap 1 = Some (Arr [HRef 2, HRef 3, HRef 4] [])"
    by (simp add: request_heap_def heap_get_def)
  have t: "\<forall>t\<in>set [HRef 2, HRef 3, HRef 4]. turn_ok request_heap t"
    by (simp add: turn_ok_def typed_turn_def turn_message_def text_content_def field_def
        heap_get_def lookup_def request_heap_def)
  have s: "transformed_turns request_heap [HRef 2, HRef 3, HRef 4]
       = [HumanMessage (HStr ''hi''), SystemMessage (HStr ''be brief'')]"
    by (simp add: transformed_turns_def turn_message_def field_def heap_get_def lookup_def
        request_heap_def)
  from C7_turns_mapped_by_role [OF o l m t]
  obtain h' n where r: "transformProps request_heap (HRef 0) = Inr (h', HRef (length request_heap))"
    "field h' (HRef (length request_heap)) ''messages'' = Inr (HRef n)"
    "messages_at h' (HRef n) = map Some (transformed_turns request_heap [HRef 2, HRef 3, HRef 4])"
    by blast
  from r(1) transformProps_request have h': "h' = transformed_heap" by simp
  have "field transformed_heap (HRef (length request_heap)) ''messages'' = Inr (HRef 6)"
    by (simp add: transformed_heap_def request_heap_def field_def heap_get_def lookup_def)
  with r(2) h' have "n = 6" by simp
  with r(3) h' s have at: "messages_at transformed_heap (HRef 6)
       = [Some (HumanMessage (HStr ''hi'')), Some (SystemMessage (HStr ''be brief''))]"
    by simp
  from t have t3: "turn_ok request_heap (HRef 2)" "turn_ok request_heap (HRef 3)"
    "turn_ok request_heap (HRef 4)"
    by simp_all
  show ?thesis
    by (intro conjI o l m t3 s transformProps_request at)
qed

text \<open>
  Claim C8. When the value the upstream function resolves with is none of the three known
  shapes (incremental stream, message chunk, string), \<^verbatim>\<open>stream\<close> throws the error
  \<^verbatim>\<open>Invalid return type from LangChain function.\<close> and returns no output stream.
\<close>

theorem C8_invalid_result_raises:
  assumes "transformProps h forwardedProps = Inr (h', forwardedProps')"
    and "chainFn h' forwardedProps' = Value (Unsupported v)"
  shows "stream chainFn h forwardedProps = Raise (Error ''Invalid return type from LangChain function.'')"
  using assms by (simp add: stream_def)

theorem C8_witness:
  "transformProps [Obj []] (HRef 0) = Inr ([Obj [], Obj []], HRef 1)
   \<and> always (Unsupported (JNum 42)) [Obj [], Obj []] (HRef 1) = Value (Unsupported (JNum 42))
   \<and> stream (always (Unsupported (JNum 42))) [Obj []] (HRef 0)
       = Raise (Error ''Invalid return type from LangChain function.'')"
proof -
  note t = transformProps_empty
  have c: "always (Unsupported (JNum 42)) [Obj [], Obj []] (HRef 1) = Value (Unsupported (JNum 42))"
    by (simp add: always_def)
  show ?thesis using t c C8_invalid_result_raises [where chainFn = "always (Unsupported (JNum 42))", OF t c]
    by simp
qed

text \<open>
  Claim C9. Take a request whose turns are typed as the specification has them: the
  content of a turn whose role is \<^verbatim>\<open>user\<close>, \<^verbatim>\<open>assistant\<close> or \<^verbatim>\<open>system\<close> is a string. Then
  every cell the store held before the call (the request object, its turns array, the
  turns and whatever they refer to) is unchanged after \<^verbatim>\<open>transformProps\<close>, whether it
  returns or throws. When it returns, the result is a new object (a shallow copy): every
  field other than \<^verbatim>\<open>messages\<close> has in the copy the value it has in the caller's request.
\<close>

theorem C9_request_copied_not_mutated:
  assumes "\<forall>t\<in>set (turns_of h forwardedProps). typed_turn h t"
  shows "(\<forall>a<length h. heap_get (snd (run_transformProps h forwardedProps)) a = heap_get h a)
    \<and> (\<forall>h' forwardedProps'. transformProps h forwardedProps = Inr (h', forwardedProps') \<longrightarrow>
          forwardedProps' = HRef (length h) \<and> length h < length h'
          \<and> (\<forall>a<length h. heap_get h' a = heap_get h a)
          \<and> (\<forall>k. k \<noteq> ''messages'' \<longrightarrow>
                field h' forwardedProps' k = Inr (lookup (own_props h forwardedProps) k))
          \<and> (\<forall>a kvs. forwardedProps = HRef a \<and> heap_get h a = Some (Obj kvs) \<longrightarrow>
                (\<forall>k. k \<noteq> ''messages'' \<longrightarrow> field h' forwardedProps' k = field h forwardedProps k)
                \<and> (\<forall>k. field h' forwardedProps k = field h forwardedProps k)))"
proof -
  from run_transformProps_frame [OF assms] obtain r hr where
    run: "run_transformProps h forwardedProps = (r, hr)" and len: "length h < length hr"
    and old: "\<forall>a<length h. hr ! a = h ! a"
    and ok: "\<forall>v. r = Inr v \<longrightarrow> v = HRef (length h)
          \<and> (\<exists>ps. hr ! length h = Obj ps
                \<and> (\<forall>k. k \<noteq> ''messages'' \<longrightarrow> lookup ps k = lookup (own_props h forwardedProps) k))"
    by blast
  have cells: "\<forall>a<length h. heap_get hr a = heap_get h a"
    using old len by (simp add: heap_get_def)
  have returned: "forwardedProps' = HRef (length h) \<and> length h < length h'
          \<and> (\<forall>a<length h. heap_get h' a = heap_get h a)
          \<and> (\<forall>k. k \<noteq> ''messages'' \<longrightarrow>
                field h' forwardedProps' k = Inr (lookup (own_props h forwardedProps) k))
          \<and> (\<forall>a kvs. forwardedProps = HRef a \<and> heap_get h a = Some (Obj kvs) \<longrightarrow>
                (\<forall>k. k \<noteq> ''messages'' \<longrightarrow> field h' forwardedProps' k = field h forwardedProps k)
                \<and> (\<forall>k. field h' forwardedProps k = field h forwardedProps k))"
    if t: "transformProps h forwardedProps = Inr (h', forwardedProps')" for h' forwardedProps'
  proof -
    from t run have r: "r = Inr forwardedProps'" and h': "h' = hr"
      by (auto simp: transformProps_def split: sum.splits)
    from ok r obtain ps where fp: "forwardedProps' = HRef (length h)"
      and ps: "hr ! length h = Obj ps"
        "\<forall>k. k \<noteq> ''messages'' \<longrightarrow> lookup ps k = lookup (own_props h forwardedProps) k"
      by blast
    have copy: "\<forall>k. k \<noteq> ''messages'' \<longrightarrow>
        field h' forwardedProps' k = Inr (lookup (own_props h forwardedProps) k)"
      using fp len ps by (simp add: h' field_def heap_get_def)
    have obj: "(\<forall>k. k \<noteq> ''messages'' \<longrightarrow> field h' forwardedProps' k = field h forwardedProps k)
        \<and> (\<forall>k. field h' forwardedProps k = field h forwardedProps k)"
      if "forwardedProps = HRef a" "heap_get h a = Some (Obj kvs)" for a kvs
    proof -
      from that have a: "a < length h"
        by (simp add: heap_get_def split: if_splits)
      with that cells have "heap_get h' a = Some (Obj kvs)" by (simp add: h')
      with that copy show ?thesis
        by (simp add: field_def own_props_def)
    qed
    show ?thesis
      using fp len cells copy obj unfolding h' by blast
  qed
  have stored: "\<forall>a<length h. heap_get (snd (run_transformProps h forwardedProps)) a = heap_get h a"
    using cells by (simp add: run)
  show ?thesis
    using stored returned by blast
qed

theorem C9_witness:
  "turns_of request_heap (HRef 0) = [HRef 2, HRef 3, HRef 4]
   \<and> typed_turn request_heap (HRef 2) \<and> typed_turn request_heap (HRef 3)
   \<and> typed_turn request_heap (HRef 4)
   \<and> transformProps request_heap (HRef 0) = Inr (transformed_heap, HRef 5)
   \<and> heap_get request_heap 0 = Some (Obj [(''messages'', HRef 1), (''temperature'', HNum 1)])
   \<and> HRef 5 = HRef (length request_heap)
   \<and> heap_get (snd (run_transformProps request_heap (HRef 0))) 0 = heap_get request_heap 0
   \<and> heap_get (snd (run_transformProps request_heap (HRef 0))) 2 = heap_get request_heap 2
   \<and> heap_get transformed_heap 0 = heap_get request_heap 0
   \<and> heap_get transformed_heap 1 = heap_get request_heap 1
   \<and> field transformed_heap (HRef 5) ''temperature'' = field request_heap (HRef 0) ''temperature''
   \<and> field transformed_heap (HRef 0) ''messages'' = field request_heap (HRef 0) ''messages''
   \<and> field transformed_heap (HRef 5) ''messages'' = Inr (HRef 6)
   \<and> turns_of null_turn_heap (HRef 0) = [HNull] \<and> typed_turn null_turn_heap HNull
   \<and> fst (run_transformProps null_turn_heap (HRef 0)) = Inl TypeError
   \<and> heap_get (snd (run_transformProps null_turn_heap (HRef 0))) 0 = heap_get null_turn_heap 0
   \<and> heap_get (snd (run_transformProps null_turn_heap (HRef 0))) 1 = heap_get null_turn_heap 1"
proof -
  have ts: "turns_of request_heap (HRef 0) = [HRef 2, HRef 3, HRef 4]"
    by (simp add: turns_of_def array_elements_def field_def heap_get_def lookup_def
        request_heap_def)
  have t3: "typed_turn request_heap (HRef 2)" "typed_turn request_heap (HRef 3)"
    "typed_turn request_heap (HRef 4)"
    by (simp_all add: typed_turn_def turn_message_def text_content_def field_def
        heap_get_def lookup_def request_heap_def)
  have typed: "\<forall>t\<in>set (turns_of request_heap (HRef 0)). typed_turn request_heap t"
    using t3 by (simp add: ts)
  have o: "heap_get request_heap 0 = Some (Obj [(''messages'', HRef 1), (''temperature'', HNum 1)])"
    by (simp add: request_heap_def heap_get_def)
  have l: "length request_heap = 5"
    by (simp add: request_heap_def)
  have m: "field transformed_heap (HRef 5) ''messages'' = Inr (HRef 6)"
    by (simp add: transformed_heap_def request_heap_def field_def heap_get_def lookup_def)
  note r = C9_request_copied_not_mutated [OF typed]
  from r have s: "\<forall>a<length request_heap.
      heap_get (snd (run_transformProps request_heap (HRef 0))) a = heap_get request_heap a"
    by (rule conjunct1)
  note r2 = r [THEN conjunct2, rule_format, OF transformProps_request]
  from r2 have a: "\<forall>a<length request_heap. heap_get transformed_heap a = heap_get request_heap a"
    by (elim conjE)
  from r2 have e: "\<forall>a kvs. HRef 0 = HRef a \<and> heap_get request_heap a = Some (Obj kvs) \<longrightarrow>
          (\<forall>k. k \<noteq> ''messages'' \<longrightarrow> field transformed_heap (HRef 5) k = field request_heap (HRef 0) k)
          \<and> (\<forall>k. field transformed_heap (HRef 0) k = field request_heap (HRef 0) k)"
    by (elim conjE)
  from e [rule_format, OF conjI [OF refl o]]
  have b: "field transformed_heap (HRef 5) ''temperature'' = field request_heap (HRef 0) ''temperature''"
    and c: "field transformed_heap (HRef 0) ''messages'' = field request_heap (HRef 0) ''messages''"
    by simp_all
  from a l have d: "heap_get transformed_heap 0 = heap_get request_heap 0"
    "heap_get transformed_heap 1 = heap_get request_heap 1"
    by simp_all
  from s l have d': "heap_get (snd (run_transformProps request_heap (HRef 0))) 0 = heap_get request_heap 0"
    "heap_get (snd (run_transformProps request_heap (HRef 0))) 2 = heap_get request_heap 2"
    by simp_all
  have nts: "turns_of null_turn_heap (HRef 0) = [HNull]"
    by (simp add: turns_of_def array_elements_def field_def heap_get_def lookup_def
        null_turn_heap_def)
  have nt: "typed_turn null_turn_heap HNull"
    by (simp add: typed_turn_def)
  have ntyped: "\<forall>t\<in>set (turns_of null_turn_heap (HRef 0)). typed_turn null_turn_heap t"
    using nt by (simp add: nts)
  have nl: "length null_turn_heap = 2"
    by (simp add: null_turn_heap_def)
  have thrown: "fst (run_transformProps null_turn_heap (HRef 0)) = Inl TypeError"
    by (simp add: null_turn_throws)
  from C9_request_copied_not_mutated [OF ntyped]
  have "\<forall>a<length null_turn_heap.
      heap_get (snd (run_transformProps null_turn_heap (HRef 0))) a = heap_get null_turn_heap a"
    by (rule conjunct1)
  with nl have n': "heap_get (snd (run_transformProps null_turn_heap (HRef 0))) 0 = heap_get null_turn_heap 0"
    "heap_get (snd (run_transformProps null_turn_heap (HRef 0))) 1 = heap_get null_turn_heap 1"
    by simp_all
  have five: "HRef 5 = HRef (length request_heap)"
    by (simp add: l)
  show ?thesis
    by (intro conjI ts t3 transformProps_request o five m b c d d' nts nt thrown n')
qed

text \<open>
  Claim C10. In single-shot mode a content that is missing or \<^verbatim>\<open>undefined\<close> defaults to the
  empty string, so the content frame always has a \<^verbatim>\<open>content\<close> member, \<^verbatim>\<open>"content":""\<close> for a
  message chunk without content. In stream-pull mode a fragment whose content is
  \<^verbatim>\<open>undefined\<close> gives a frame whose \<^verbatim>\<open>delta\<close> has no \<^verbatim>\<open>content\<close> member at all.
\<close>

theorem C10_content_key_by_mode:
  "(transformProps h forwardedProps = Inr (h', forwardedProps')
      \<and> chainFn h' forwardedProps' = Value (MessageChunk kvs)
      \<and> opt_prop (own_prop (JObj kvs) ''lc_kwargs'') ''content'' = JUndefined
     \<longrightarrow> (\<exists>s. stream chainFn h forwardedProps = Value (Single s)
           \<and> frames (trace s) =
               [record_of (role_member @ content_member (JStr [])
                  @ function_call_member (opt_prop (own_prop (JObj kvs) ''lc_kwargs'') ''function_call'')),
                done_payload]))
   \<and> (\<exists>s. SingleChunkReadableStream content f = Inr s
         \<and> frames (trace s) =
             [record_of (role_member
                @ content_member (if content = JUndefined then JStr [] else content)
                @ function_call_member f),
              done_payload])
   \<and> (\<not> nullish v \<and> opt_prop (opt_prop v ''lc_kwargs'') ''content'' = JUndefined
      \<and> streamResult up = Inr st \<and> pending up = Chunk v # rest \<and> ustate up = UReadable
     \<longrightarrow> (\<exists>t. frames (trace (snd (pull st))) =
             record_of (role_member
               @ function_call_member
                   (opt_prop (opt_prop (own_prop v ''lc_kwargs'') ''additional_kwargs'') ''function_call''))
             # t))
   \<and> content_member (JStr []) = '','' @ dq # ''content'' @ dq # '':'' @ [dq, dq]"
proof -
  have a: "\<exists>s. stream chainFn h forwardedProps = Value (Single s)
           \<and> frames (trace s) =
               [record_of (role_member @ content_member (JStr [])
                  @ function_call_member (opt_prop (own_prop (JObj kvs) ''lc_kwargs'') ''function_call'')),
                done_payload]"
    if "transformProps h forwardedProps = Inr (h', forwardedProps')"
      "chainFn h' forwardedProps' = Value (MessageChunk kvs)"
      "opt_prop (own_prop (JObj kvs) ''lc_kwargs'') ''content'' = JUndefined"
    using that
      single_chunk_frames [of JUndefined "opt_prop (own_prop (JObj kvs) ''lc_kwargs'') ''function_call''"]
    by (auto simp: stream_def of_sum_def)
  have c: "\<exists>t. frames (trace (snd (pull st))) =
             record_of (role_member
               @ function_call_member
                   (opt_prop (opt_prop (own_prop v ''lc_kwargs'') ''additional_kwargs'') ''function_call''))
             # t"
    if "\<not> nullish v" "opt_prop (opt_prop v ''lc_kwargs'') ''content'' = JUndefined"
      "streamResult up = Inr st" "pending up = Chunk v # rest" "ustate up = UReadable"
    using first_frame_of_pull [OF that(1,3,4,5)] that(2)
    by (simp add: fragment_payload_def content_payload_undefined)
  have d: "content_member (JStr []) = '','' @ dq # ''content'' @ dq # '':'' @ [dq, dq]"
    by (simp add: content_member_def JSON_stringify_def quote_def escape_char_def dq_def bsl_def)
  show ?thesis
    using a c d single_chunk_frames [of content f] by blast
qed

theorem C10_witness:
  "transformProps [Obj []] (HRef 0) = Inr ([Obj [], Obj []], HRef 1)
   \<and> always (MessageChunk bare_kwargs) [Obj [], Obj []] (HRef 1) = Value (MessageChunk bare_kwargs)
   \<and> opt_prop (own_prop (JObj bare_kwargs) ''lc_kwargs'') ''content'' = JUndefined
   \<and> (\<exists>s. stream (always (MessageChunk bare_kwargs)) [Obj []] (HRef 0) = Value (Single s)
         \<and> frames (trace s) =
             [TextEncoder_encode
                (''data: {'' @ dq # ''choices'' @ dq # '':[{'' @ dq # ''delta'' @ dq # '':{''
                 @ dq # ''role'' @ dq # '':'' @ dq # ''assistant'' @ dq # '',''
                 @ dq # ''content'' @ dq # '':'' @ dq # dq # ''}}]}'' @ [nl, nl]),
              done_payload])
   \<and> \<not> nullish (JObj bare_kwargs)
   \<and> opt_prop (opt_prop (JObj bare_kwargs) ''lc_kwargs'') ''content'' = JUndefined
   \<and> streamResult (upstream_of [Chunk (JObj bare_kwargs), End]) = Inr (opened [Chunk (JObj bare_kwargs), End])
   \<and> (\<exists>t. frames (trace (snd (pull (opened [Chunk (JObj bare_kwargs), End])))) =
         TextEncoder_encode
           (''data: {'' @ dq # ''choices'' @ dq # '':[{'' @ dq # ''delta'' @ dq # '':{''
            @ dq # ''role'' @ dq # '':'' @ dq # ''assistant'' @ dq # ''}}]}'' @ [nl, nl])
         # t)"
proof -
  let ?cf = "always (MessageChunk bare_kwargs)"
  let ?up = "upstream_of [Chunk (JObj bare_kwargs), End]"
  have a: "?cf [Obj [], Obj []] (HRef 1) = Value (MessageChunk bare_kwargs)"
    by (simp add: always_def)
  have b: "opt_prop (own_prop (JObj bare_kwargs) ''lc_kwargs'') ''content'' = JUndefined"
    by (simp add: bare_kwargs_def opt_prop_def own_prop_def nullish_def)
  have c: "\<not> nullish (JObj bare_kwargs)"
    by (simp add: nullish_def)
  have d: "opt_prop (opt_prop (JObj bare_kwargs) ''lc_kwargs'') ''content'' = JUndefined"
    by (simp add: bare_kwargs_def opt_prop_def own_prop_def nullish_def)
  note e = streamResult_opened [of "[Chunk (JObj bare_kwargs), End]"]
  have f: "pending ?up = Chunk (JObj bare_kwargs) # [End]" "ustate ?up = UReadable"
    by (simp_all add: upstream_of_def)
  have g: "function_call_member (opt_prop (own_prop (JObj bare_kwargs) ''lc_kwargs'') ''function_call'') = []"
    "function_call_member
       (opt_prop (opt_prop (own_prop (JObj bare_kwargs) ''lc_kwargs'') ''additional_kwargs'') ''function_call'') = []"
    by (simp_all add: bare_kwargs_def opt_prop_def own_prop_def nullish_def function_call_member_def)
  have r1: "record_of (role_member @ content_member (JStr [])) =
      TextEncoder_encode
                (''data: {'' @ dq # ''choices'' @ dq # '':[{'' @ dq # ''delta'' @ dq # '':{''
                 @ dq # ''role'' @ dq # '':'' @ dq # ''assistant'' @ dq # '',''
                 @ dq # ''content'' @ dq # '':'' @ dq # dq # ''}}]}'' @ [nl, nl])"
    by (simp add: record_of_def role_member_def content_member_def JSON_stringify_def quote_def
        escape_char_def dq_def bsl_def)
  have r2: "record_of role_member =
      TextEncoder_encode
           (''data: {'' @ dq # ''choices'' @ dq # '':[{'' @ dq # ''delta'' @ dq # '':{''
            @ dq # ''role'' @ dq # '':'' @ dq # ''assistant'' @ dq # ''}}]}'' @ [nl, nl])"
    by (simp add: record_of_def role_member_def quote_def escape_char_def dq_def bsl_def)
  note t = C10_content_key_by_mode [where chainFn = ?cf and h = "[Obj []]" and forwardedProps = "HRef 0"
      and h' = "[Obj [], Obj []]" and forwardedProps' = "HRef 1" and kvs = bare_kwargs
      and v = "JObj bare_kwargs" and up = ?up and st = "opened [Chunk (JObj bare_kwargs), End]"
      and rest = "[End]"]
  from t [THEN conjunct1, rule_format, OF conjI [OF transformProps_empty conjI [OF a b]]]
  have p1: "\<exists>s. stream ?cf [Obj []] (HRef 0) = Value (Single s)
         \<and> frames (trace s) = [record_of (role_member @ content_member (JStr [])), done_payload]"
    by (simp only: g append_Nil2)
  from t [THEN conjunct2, THEN conjunct2, THEN conjunct1, rule_format,
      OF conjI [OF c conjI [OF d conjI [OF e conjI [OF f]]]]]
  have p2: "\<exists>t. frames (trace (snd (pull (opened [Chunk (JObj bare_kwargs), End])))) =
         record_of role_member # t"
    by (simp only: g append_Nil2)
  show ?thesis
    by (intro conjI transformProps_empty a b c d e p1 [unfolded r1] p2 [unfolded r2])
qed

end
